theory Spec2Isabelle
  imports Complex_Main "HOL-Library.Word" "HOL-Library.Log_Nat"
begin

unbundle bit_operations_syntax

section \<open>Data model\<close>

text \<open>
  The pixel buffer is a numpy array of dtype \<^verbatim>\<open>'B'\<close> and shape
  \<^verbatim>\<open>(height, width, 4)\<close>: a list of rows, each row a list of pixels, each pixel
  a list of four bytes. The working mask of \<^verbatim>\<open>detect_screens\<close> has dtype
  \<^verbatim>\<open>int8\<close>: the same eight bits, read as two's complement, so that
  \<open>- 1\<close> is the word with all bits set.
\<close>

type_synonym byte = "8 word"
type_synonym int8 = "8 word"
type_synonym buffer = "byte list list list"

text \<open>The exceptions the code can raise, as values.\<close>

datatype error =
    IncompleteReadError
  | MaxDenominatorError
  | UnsupportedEncoding nat
  | InvalidUpdateType nat
  | BroadcastError
  | BufferTooSmall
  | SubstringNotFound
  | IndexError
  | ZeroDivisionError
  | OverflowError
  | DecompressError

text \<open>An exception raised by a step ends the computation with that exception.\<close>

definition bind_e :: "error + 'a \<Rightarrow> ('a \<Rightarrow> error + 'b) \<Rightarrow> error + 'b" where
  "bind_e r f = (case r of Inl e \<Rightarrow> Inl e | Inr a \<Rightarrow> f a)"

record Screen =
  x :: int
  y :: int
  width :: int
  height :: int

text \<open>
  \<^verbatim>\<open>Video\<close>. The field \<open>reader\<close> holds the bytes of the stream not read yet,
  \<open>writer\<close> the bytes written so far, \<open>decompress\<close> the state of the zlib
  decompression object (the effect of calling it is a parameter of \<^verbatim>\<open>read\<close>).
  The fields \<^verbatim>\<open>width\<close> and \<^verbatim>\<open>height\<close> are \<open>vwidth\<close> and \<open>vheight\<close> here,
  since \<open>Screen\<close> has fields of the same names; they are read from the stream as
  unsigned integers of two bytes.
\<close>

record 'z Video =
  reader :: "byte list"
  writer :: "byte list"
  decompress :: 'z
  name :: string
  vwidth :: nat
  vheight :: nat
  mode :: string
  data :: "buffer option"

definition video_modes :: "string list" where
  "video_modes = [''bgra'', ''rgba'', ''argb'', ''abgr'']"

text \<open>The buffer has the shape \<^verbatim>\<open>(h, w, 4)\<close>.\<close>

definition has_shape :: "nat \<Rightarrow> nat \<Rightarrow> buffer \<Rightarrow> bool" where
  "has_shape h w d \<longleftrightarrow>
     length d = h \<and> list_all (\<lambda>row. length row = w \<and> list_all (\<lambda>px. length px = 4) row) d"

section \<open>Strings and channel selection\<close>

text \<open>\<^verbatim>\<open>str.index\<close>: the position of the first occurrence, or \<^verbatim>\<open>ValueError\<close>.\<close>

definition str_index :: "string \<Rightarrow> char \<Rightarrow> error + nat" where
  "str_index s c =
     (if c \<in> set s then Inr (length (takeWhile (\<lambda>k. k \<noteq> c) s)) else Inl SubstringNotFound)"

text \<open>\<^verbatim>\<open>data[:, :, k]\<close>: numpy raises \<^verbatim>\<open>IndexError\<close> when \<open>k\<close> is not below 4.\<close>

definition channel :: "nat \<Rightarrow> buffer \<Rightarrow> error + byte list list" where
  "channel k d = (if 4 \<le> k then Inl IndexError else Inr (map (map (\<lambda>px. px ! k)) d))"

definition alpha_channel :: "string \<Rightarrow> buffer \<Rightarrow> error + byte list list" where
  "alpha_channel m d = bind_e (str_index m CHR ''a'') (\<lambda>k. channel k d)"

section \<open>\<^verbatim>\<open>Video.is_complete\<close>\<close>

text \<open>\<^verbatim>\<open>ndarray.all()\<close>: every element is non-zero.\<close>

definition np_all :: "'a::zero list list \<Rightarrow> bool" where
  "np_all m = list_all (list_all (\<lambda>e. e \<noteq> 0)) m"

definition is_complete :: "'z Video \<Rightarrow> error + bool" where
  "is_complete v =
     (case data v of
        None \<Rightarrow> Inr False
      | Some d \<Rightarrow> bind_e (alpha_channel (mode v) d) (\<lambda>m. Inr (np_all m)))"

section \<open>\<^verbatim>\<open>Video.as_rgba\<close>\<close>

text \<open>\<^verbatim>\<open>np.zeros((height, width, 4), 'B')\<close>.\<close>

definition np_zeros :: "nat \<Rightarrow> nat \<Rightarrow> buffer" where
  "np_zeros h w = replicate h (replicate w [0, 0, 0, 0])"

text \<open>
  \<^verbatim>\<open>np.dstack\<close> of four planes: pixel \<open>(i, j)\<close> of the result holds the four
  values the planes have at \<open>(i, j)\<close>.
\<close>

definition dstack4 ::
  "byte list list \<Rightarrow> byte list list \<Rightarrow> byte list list \<Rightarrow> byte list list \<Rightarrow> buffer" where
  "dstack4 r g b a =
     map (\<lambda>(rr, gr, br, ar). map (\<lambda>(rv, gv, bv, av). [rv, gv, bv, av]) (zip rr (zip gr (zip br ar))))
       (zip r (zip g (zip b a)))"

definition as_rgba :: "'z Video \<Rightarrow> error + buffer" where
  "as_rgba v =
     (case data v of
        None \<Rightarrow> Inr (np_zeros (vheight v) (vwidth v))
      | Some d \<Rightarrow>
          if mode v = ''rgba'' then Inr d
          else if mode v = ''abgr'' then Inr (map (map rev) d)
          else
            bind_e (str_index (mode v) CHR ''r'') (\<lambda>ir. bind_e (channel ir d) (\<lambda>pr.
            bind_e (str_index (mode v) CHR ''g'') (\<lambda>ig. bind_e (channel ig d) (\<lambda>pg.
            bind_e (str_index (mode v) CHR ''b'') (\<lambda>ib. bind_e (channel ib d) (\<lambda>pb.
            bind_e (str_index (mode v) CHR ''a'') (\<lambda>ia. bind_e (channel ia d) (\<lambda>pa.
            Inr (dstack4 pr pg pb pa))))))))))"

text \<open>
  The permutation \<^verbatim>\<open>as_rgba\<close> applies to the channels of a pixel in mode \<open>m\<close>,
  and its inverse, which puts the channels of an RGBA pixel back into the order \<open>m\<close>.
  They are the specification \<^verbatim>\<open>as_rgba\<close> is compared with.
\<close>

definition to_rgba_px :: "string \<Rightarrow> byte list \<Rightarrow> byte list" where
  "to_rgba_px m px = map (\<lambda>c. px ! length (takeWhile (\<lambda>k. k \<noteq> c) m)) ''rgba''"

definition from_rgba_px :: "string \<Rightarrow> byte list \<Rightarrow> byte list" where
  "from_rgba_px m px = map (\<lambda>c. px ! length (takeWhile (\<lambda>k. k \<noteq> c) ''rgba'')) m"

section \<open>\<^verbatim>\<open>Screen\<close>\<close>

text \<open>
  A Python slice \<^verbatim>\<open>xs[lo:hi]\<close>: a negative bound counts from the end, and both
  bounds are clipped to the length.
\<close>

definition slice_bound :: "nat \<Rightarrow> int \<Rightarrow> nat" where
  "slice_bound n i = (if i < 0 then nat (int n + i) else min n (nat i))"

definition py_slice :: "int \<Rightarrow> int \<Rightarrow> 'a list \<Rightarrow> 'a list" where
  "py_slice lo hi xs =
     (let a = slice_bound (length xs) lo; b = slice_bound (length xs) hi
      in take (b - a) (drop a xs))"

text \<open>Assignment through a slice: the elements of \<^verbatim>\<open>xs[lo:hi]\<close> are replaced.\<close>

definition py_slice_update :: "int \<Rightarrow> int \<Rightarrow> ('a \<Rightarrow> 'a) \<Rightarrow> 'a list \<Rightarrow> 'a list" where
  "py_slice_update lo hi f xs =
     (let a = slice_bound (length xs) lo; b = slice_bound (length xs) hi
      in take a xs @ map f (take (b - a) (drop a xs)) @ drop (a + (b - a)) xs)"

text \<open>
  \<^verbatim>\<open>Screen.slices\<close>: the bounds of the row slice and of the column slice. Then
  \<^verbatim>\<open>arr[screen.slices]\<close> and \<^verbatim>\<open>arr[screen.slices] = 0\<close>.
\<close>

definition slices :: "Screen \<Rightarrow> (int \<times> int) \<times> (int \<times> int)" where
  "slices s = ((y s, y s + height s), (x s, x s + width s))"

definition crop :: "Screen \<Rightarrow> 'a list list \<Rightarrow> 'a list list" where
  "crop s arr =
     (case slices s of ((r0, r1), (c0, c1)) \<Rightarrow> map (py_slice c0 c1) (py_slice r0 r1 arr))"

definition clear :: "Screen \<Rightarrow> 'a::zero list list \<Rightarrow> 'a list list" where
  "clear s arr =
     (case slices s of ((r0, r1), (c0, c1)) \<Rightarrow>
        py_slice_update r0 r1 (py_slice_update c0 c1 (\<lambda>_. 0)) arr)"

text \<open>\<^verbatim>\<open>Fraction(n, d)\<close> raises \<^verbatim>\<open>ZeroDivisionError\<close> for a zero denominator.\<close>

definition Fraction :: "int \<Rightarrow> int \<Rightarrow> error + rat" where
  "Fraction n d = (if d = 0 then Inl ZeroDivisionError else Inr (Fract n d))"

text \<open>
  \<^verbatim>\<open>Fraction.limit_denominator\<close> of the Python standard library. It refuses a
  bound below 1 and returns a fraction whose denominator is within the bound as it is.
  Otherwise it runs the loop over the continued fraction of \<open>n / d\<close>, which stops at
  the first convergent whose denominator exceeds the bound, and returns the closer of
  the two neighbours it has found.
\<close>

function limit_loop ::
  "int \<Rightarrow> int \<Rightarrow> int \<Rightarrow> int \<Rightarrow> int \<Rightarrow> int \<Rightarrow> int \<Rightarrow> error + (int \<times> int \<times> int \<times> int)" where
  "limit_loop mx p0 q0 p1 q1 n d =
     (if d = 0 then Inl ZeroDivisionError
      else
        let a = n div d; q2 = q0 + a * q1
        in if q2 > mx then Inr (p0, q0, p1, q1)
           else limit_loop mx p1 q1 (p0 + a * p1) q2 d (n - a * d))"
  by pat_completeness auto
termination
proof (relation "measure (\<lambda>(mx, p0, q0, p1, q1, n, d). nat \<bar>d\<bar>)")
  show "wf (measure (\<lambda>(mx, p0, q0, p1, q1, n, d). nat \<bar>d\<bar>))"
    by simp
next
  fix mx p0 q0 p1 q1 n d a q2 :: int
  assume d: "d \<noteq> 0" and a: "a = n div d"
  have "n - a * d = n mod d"
    using a by (simp add: minus_div_mult_eq_mod)
  moreover have "\<bar>n mod d\<bar> < \<bar>d\<bar>"
    using d by (rule abs_mod_less)
  ultimately show "((mx, p1, q1, p0 + a * p1, q2, d, n - a * d), (mx, p0, q0, p1, q1, n, d))
      \<in> measure (\<lambda>(mx, p0, q0, p1, q1, n, d). nat \<bar>d\<bar>)"
    by simp
qed

declare limit_loop.simps [simp del]

definition limit_denominator :: "int \<Rightarrow> rat \<Rightarrow> error + rat" where
  "limit_denominator mx r =
     (case quotient_of r of (n0, d0) \<Rightarrow>
        if mx < 1 then Inl MaxDenominatorError
        else if d0 \<le> mx then Inr r
        else bind_e (limit_loop mx 0 1 1 0 n0 d0) (\<lambda>(p0, q0, p1, q1).
          if q1 = 0 then Inl ZeroDivisionError
          else
            let k = (mx - q0) div q1
            in bind_e (Fraction (p0 + k * p1) (q0 + k * q1)) (\<lambda>bound1.
               bind_e (Fraction p1 q1) (\<lambda>bound2.
               if \<bar>bound2 - r\<bar> \<le> \<bar>bound1 - r\<bar> then Inr bound2 else Inr bound1))))"

definition screen_ratios :: "rat set" where
  "screen_ratios = {Fract 3 2, Fract 4 3, Fract 16 10, Fract 16 9, Fract 32 9, Fract 64 27}"

subsection \<open>Floats\<close>

text \<open>
  A Python float is an IEEE 754 double. \<open>Double s m\<close> is the finite double of
  magnitude \<open>m\<close>, negative when \<open>s\<close> holds, so that there are two zeros;
  \<open>Infinity s\<close> is the infinity of that sign.
\<close>

datatype float = Double bool rat | Infinity bool | NaN

text \<open>
  The binary exponent of a positive rational \<open>q\<close>, the \<open>k\<close> with
  \<open>2 powi k \<le> q < 2 powi (k + 1)\<close>, from the bit lengths of numerator and
  denominator.
\<close>

definition ilog2 :: "rat \<Rightarrow> int" where
  "ilog2 q =
     (case quotient_of q of (a, b) \<Rightarrow>
        let k = bitlen a - bitlen b in if 2 powi k \<le> q then k else k - 1)"

text \<open>The nearest integer, and of two nearest integers the even one.\<close>

definition round_half_even :: "rat \<Rightarrow> int" where
  "round_half_even t =
     (let n = \<lfloor>t\<rfloor>; f = t - of_int n
      in if f < 1 / 2 then n else if 1 / 2 < f then n + 1 else if even n then n else n + 1)"

text \<open>
  The magnitude \<open>q\<close> rounded to a double: to a multiple of the unit in the last
  place, which lies 52 binary places below the exponent of \<open>q\<close> and is
  \<open>2 powi - 1074\<close> for the subnormal numbers. The result can be \<open>2 ^ 1024\<close>, which
  is beyond the largest double.
\<close>

definition round_double :: "rat \<Rightarrow> rat" where
  "round_double q =
     (if q = 0 then 0
      else let ulp = 2 powi (max (ilog2 q - 52) (- 1074))
           in of_int (round_half_even (q / ulp)) * ulp)"

text \<open>
  A rounded magnitude is beyond the largest double, \<open>2 ^ 1024 - 2 ^ 971\<close>, exactly
  when it has reached \<open>2 ^ 1024\<close>.
\<close>

definition overflows :: "rat \<Rightarrow> bool" where
  "overflows m \<longleftrightarrow> 2 ^ 1024 \<le> m"

text \<open>
  \<^verbatim>\<open>float(n)\<close> for an int and \<^verbatim>\<open>float(f)\<close> for a \<^verbatim>\<open>Fraction\<close>, which is the true
  division of its numerator by its denominator: the nearest double, and
  \<^verbatim>\<open>OverflowError\<close> when that is beyond the largest one.
\<close>

definition float_of_rat :: "rat \<Rightarrow> error + float" where
  "float_of_rat r =
     (let m = round_double \<bar>r\<bar>
      in if overflows m then Inl OverflowError else Inr (Double (r < 0) m))"

definition float_of_int :: "int \<Rightarrow> error + float" where
  "float_of_int n = float_of_rat (of_int n)"

text \<open>
  The product of two floats: the exact product rounded, an infinity when that is
  beyond the largest double. No exception is raised.
\<close>

fun float_mul :: "float \<Rightarrow> float \<Rightarrow> float" where
  "float_mul (Double s m) (Double t n) =
     (let r = round_double (m * n)
      in if overflows r then Infinity (s \<noteq> t) else Double (s \<noteq> t) r)"
| "float_mul (Double s m) (Infinity t) = (if m = 0 then NaN else Infinity (s \<noteq> t))"
| "float_mul (Infinity s) (Double t n) = (if n = 0 then NaN else Infinity (s \<noteq> t))"
| "float_mul (Infinity s) (Infinity t) = Infinity (s \<noteq> t)"
| "float_mul NaN b = NaN"
| "float_mul a NaN = NaN"

text \<open>
  The order of floats: that of their values, the two zeros equal, an infinity beyond
  every double. Not a number is not ordered; it is no score (lemma \<open>score_not_NaN\<close>).
\<close>

fun float_value :: "float \<Rightarrow> rat" where
  "float_value (Double s m) = (if s then - m else m)"
| "float_value (Infinity s) = (if s then - (2 ^ 1024) else 2 ^ 1024)"
| "float_value NaN = 0"

subsection \<open>The score\<close>

text \<open>
  \<^verbatim>\<open>Screen.score\<close>. The area is converted to a float first. \<^verbatim>\<open>min(ratios) * 0.5\<close>
  multiplies a \<^verbatim>\<open>Fraction\<close> by a float: the fraction is converted to a float and
  the product is that of floats, as is the product with the area.
\<close>

definition score :: "Screen \<Rightarrow> error + float" where
  "score s =
     bind_e (float_of_int (width s * height s)) (\<lambda>value.
     bind_e (Fraction (width s) (height s)) (\<lambda>f1.
     bind_e (limit_denominator 64 f1) (\<lambda>r1.
     bind_e (Fraction (height s) (width s)) (\<lambda>f2.
     bind_e (limit_denominator 64 f2) (\<lambda>r2.
     if {r1, r2} \<inter> screen_ratios = {}
     then bind_e (float_of_rat (min r1 r2))
            (\<lambda>m. Inr (float_mul value (float_mul m (Double False (1 / 2)))))
     else Inr value)))))"

section \<open>\<^verbatim>\<open>Video.detect_screens\<close>\<close>

text \<open>
  \<^verbatim>\<open>mask // 255\<close> on unsigned bytes, \<^verbatim>\<open>np.pad\<close> with one cell of zeros on
  every side (\<open>w\<close> is the number of columns of the array), and the four views of
  the padded mask. \<^verbatim>\<open>astype(np.int8)\<close> keeps the bits of every cell.
\<close>

definition binarize :: "byte list list \<Rightarrow> byte list list" where
  "binarize m = map (map (\<lambda>a. a div 255)) m"

definition np_pad :: "nat \<Rightarrow> 'a::zero list list \<Rightarrow> 'a list list" where
  "np_pad w m = replicate (w + 2) 0 # map (\<lambda>r. 0 # r @ [0]) m @ [replicate (w + 2) 0]"

definition mask_a :: "'a list list \<Rightarrow> 'a list list" where
  "mask_a msk = map tl (tl msk)"

definition mask_b :: "'a list list \<Rightarrow> 'a list list" where
  "mask_b msk = map butlast (tl msk)"

definition mask_c :: "'a list list \<Rightarrow> 'a list list" where
  "mask_c msk = map tl (butlast msk)"

definition mask_d :: "'a list list \<Rightarrow> 'a list list" where
  "mask_d msk = map butlast (butlast msk)"

text \<open>Element-wise operations on arrays of the same shape, and \<^verbatim>\<open>np.argwhere\<close>.\<close>

definition arr_sub :: "int8 list list \<Rightarrow> int8 list list \<Rightarrow> int8 list list" where
  "arr_sub p q = map2 (map2 (\<lambda>u v. u - v)) p q"

definition arr_and :: "int8 list list \<Rightarrow> int8 list list \<Rightarrow> int8 list list" where
  "arr_and p q = map2 (map2 (\<lambda>u v. u AND v)) p q"

definition arr_eq :: "int8 list list \<Rightarrow> int8 \<Rightarrow> bool list list" where
  "arr_eq p c = map (map (\<lambda>u. u = c)) p"

definition argwhere :: "bool list list \<Rightarrow> (nat \<times> nat) list" where
  "argwhere p =
     concat (map (\<lambda>i. map (\<lambda>j. (i, j)) (filter (\<lambda>j. p ! i ! j) [0..<length (p ! i)]))
       [0..<length p])"

text \<open>
  The four corner tests, written as the code writes them: the bitwise AND of two
  differences, compared with \<open>- 1\<close>.
\<close>

definition top_left :: "int8 list list \<Rightarrow> bool list list" where
  "top_left msk =
     arr_eq (arr_and (arr_sub (mask_b msk) (mask_a msk)) (arr_sub (mask_c msk) (mask_a msk))) (- 1)"

definition top_right :: "int8 list list \<Rightarrow> bool list list" where
  "top_right msk =
     arr_eq (arr_and (arr_sub (mask_a msk) (mask_b msk)) (arr_sub (mask_d msk) (mask_b msk))) (- 1)"

definition bottom_left :: "int8 list list \<Rightarrow> bool list list" where
  "bottom_left msk =
     arr_eq (arr_and (arr_sub (mask_d msk) (mask_c msk)) (arr_sub (mask_a msk) (mask_c msk))) (- 1)"

definition bottom_right :: "int8 list list \<Rightarrow> bool list list" where
  "bottom_right msk =
     arr_eq (arr_and (arr_sub (mask_c msk) (mask_d msk)) (arr_sub (mask_b msk) (mask_d msk))) (- 1)"

text \<open>
  The corner tests as the specification words them: both differences equal \<open>- 1\<close>.
\<close>

definition arr_conj :: "bool list list \<Rightarrow> bool list list \<Rightarrow> bool list list" where
  "arr_conj p q = map2 (map2 (\<lambda>u v. u \<and> v)) p q"

definition spec_top_left :: "int8 list list \<Rightarrow> bool list list" where
  "spec_top_left msk =
     arr_conj (arr_eq (arr_sub (mask_b msk) (mask_a msk)) (- 1))
       (arr_eq (arr_sub (mask_c msk) (mask_a msk)) (- 1))"

definition spec_top_right :: "int8 list list \<Rightarrow> bool list list" where
  "spec_top_right msk =
     arr_conj (arr_eq (arr_sub (mask_a msk) (mask_b msk)) (- 1))
       (arr_eq (arr_sub (mask_d msk) (mask_b msk)) (- 1))"

definition spec_bottom_left :: "int8 list list \<Rightarrow> bool list list" where
  "spec_bottom_left msk =
     arr_conj (arr_eq (arr_sub (mask_d msk) (mask_c msk)) (- 1))
       (arr_eq (arr_sub (mask_a msk) (mask_c msk)) (- 1))"

definition spec_bottom_right :: "int8 list list \<Rightarrow> bool list list" where
  "spec_bottom_right msk =
     arr_conj (arr_eq (arr_sub (mask_c msk) (mask_d msk)) (- 1))
       (arr_eq (arr_sub (mask_b msk) (mask_d msk)) (- 1))"

text \<open>
  \<^verbatim>\<open>itertools.product\<close> of the four corner lists; a corner is \<open>(row, column)\<close>.
\<close>

type_synonym corner = "nat \<times> nat"
type_synonym rect = "int \<times> int \<times> int \<times> int"

definition corners :: "int8 list list \<Rightarrow> (corner \<times> corner \<times> corner \<times> corner) list" where
  "corners msk =
     [(a, b, c, d).
        a \<leftarrow> argwhere (top_left msk), b \<leftarrow> argwhere (top_right msk),
        c \<leftarrow> argwhere (bottom_left msk), d \<leftarrow> argwhere (bottom_right msk)]"

text \<open>The rectangles one combination of corners adds to \<^verbatim>\<open>rects\<close>, in the order added.\<close>

definition rects_of :: "corner \<times> corner \<times> corner \<times> corner \<Rightarrow> rect list" where
  "rects_of t =
     (case t of (a, b, c, d) \<Rightarrow>
        let ab = (fst a = fst b \<and> snd a < snd b);
            cd = (fst c = fst d \<and> snd c < snd d);
            ac = (snd a = snd c \<and> fst a < fst c);
            bd = (snd b = snd d \<and> fst b < fst d)
        in (if ab \<and> ac then [(int (snd a), int (fst a), int (snd b), int (fst c))] else []) @
           (if ab \<and> bd then [(int (snd a), int (fst a), int (snd d), int (fst d))] else []) @
           (if cd \<and> ac then [(int (snd a), int (fst a), int (snd d), int (fst d))] else []) @
           (if cd \<and> bd then [(int (snd c), int (fst b), int (snd d), int (fst d))] else []))"

text \<open>
  \<^verbatim>\<open>rects\<close> is a Python set: it holds each rectangle once, and the order in which
  it is iterated is fixed by the hash table, not by the source. The model takes that
  order as the parameter \<open>rank\<close>: the rectangles are iterated by increasing rank, which
  may depend on everything that was added.
\<close>

definition set_iteration :: "(rect list \<Rightarrow> rect \<Rightarrow> nat) \<Rightarrow> rect list \<Rightarrow> rect list" where
  "set_iteration rank added = sort_key (rank added) (remdups added)"

definition candidates :: "(rect list \<Rightarrow> rect \<Rightarrow> nat) \<Rightarrow> int8 list list \<Rightarrow> Screen list" where
  "candidates rank msk =
     map (\<lambda>(x0, y0, x1, y1). \<lparr>x = x0, y = y0, width = x1 - x0, height = y1 - y0\<rparr>)
       (set_iteration rank (concat (map rects_of (corners msk))))"

text \<open>
  \<^verbatim>\<open>candidates.sort(key=score, reverse=True)\<close>: the keys are computed first (an
  exception there ends the call), and the sort is stable.
\<close>

fun all_keys :: "Screen list \<Rightarrow> error + (float \<times> Screen) list" where
  "all_keys [] = Inr []"
| "all_keys (s # ss) =
     bind_e (score s) (\<lambda>k. bind_e (all_keys ss) (\<lambda>ks. Inr ((k, s) # ks)))"

definition sort_by_score :: "Screen list \<Rightarrow> error + Screen list" where
  "sort_by_score ss =
     bind_e (all_keys ss) (\<lambda>ks. Inr (map snd (sort_key (\<lambda>p. - float_value (fst p)) ks)))"

text \<open>
  \<^verbatim>\<open>mask_a\<close> is a view of \<^verbatim>\<open>mask\<close>: an assignment to it changes the cells of
  \<^verbatim>\<open>mask\<close> outside the first row and the first column, and the other three views
  with them.
\<close>

definition assign_mask_a :: "'a list list \<Rightarrow> 'a list list \<Rightarrow> 'a list list" where
  "assign_mask_a msk m = hd msk # map2 (\<lambda>r r'. hd r # r') (tl msk) m"

text \<open>
  One round of the \<^verbatim>\<open>while True\<close> loop up to the choice of a screen: the
  candidates, sorted, and the first of them whose region of \<^verbatim>\<open>mask_a\<close> is
  entirely non-zero, if there is one.
\<close>

definition accept :: "(rect list \<Rightarrow> rect \<Rightarrow> nat) \<Rightarrow> int8 list list \<Rightarrow> error + Screen option" where
  "accept rank msk =
     bind_e (sort_by_score (candidates rank msk))
       (\<lambda>ordered. Inr (find (\<lambda>s. np_all (crop s (mask_a msk))) ordered))"

text \<open>
  The loop. Its state is the padded working mask and the screens accepted so far; an
  accepted screen is cleared in the mask through the view \<^verbatim>\<open>mask_a\<close>.
\<close>

partial_function (option) detect_loop ::
  "(rect list \<Rightarrow> rect \<Rightarrow> nat) \<Rightarrow> int8 list list \<Rightarrow> Screen list \<Rightarrow> (error + Screen list) option" where
  "detect_loop rank msk screens =
     (case accept rank msk of
        Inl e \<Rightarrow> Some (Inl e)
      | Inr None \<Rightarrow> Some (Inr screens)
      | Inr (Some s) \<Rightarrow>
          detect_loop rank (assign_mask_a msk (clear s (mask_a msk))) (screens @ [s]))"

declare detect_loop.simps [code]

text \<open>
  \<^verbatim>\<open>detect_screens\<close> returns the screens together with the video object, whose
  fields the method may have changed.
\<close>

definition detect_screens ::
  "(rect list \<Rightarrow> rect \<Rightarrow> nat) \<Rightarrow> 'z Video \<Rightarrow> ((error + Screen list) \<times> 'z Video) option" where
  "detect_screens rank v =
     (case data v of
        None \<Rightarrow> Some (Inr [], v)
      | Some d \<Rightarrow>
          (case alpha_channel (mode v) d of
             Inl e \<Rightarrow> Some (Inl e, v)
           | Inr m \<Rightarrow>
               map_option (\<lambda>r. (r, v)) (detect_loop rank (np_pad (vwidth v) (binarize m)) [])))"

section \<open>Reading from the stream\<close>

text \<open>
  A computation that reads or writes the state \<open>'s\<close> and may raise: it returns the
  state it has reached together with its result or its exception.
\<close>

type_synonym ('s, 'a) io = "'s \<Rightarrow> (error + 'a) \<times> 's"

definition bind_s :: "('s, 'a) io \<Rightarrow> ('a \<Rightarrow> ('s, 'b) io) \<Rightarrow> ('s, 'b) io" where
  "bind_s m f s = (case m s of (Inl e, s') \<Rightarrow> (Inl e, s') | (Inr a, s') \<Rightarrow> f a s')"

definition return_s :: "'a \<Rightarrow> ('s, 'a) io" where
  "return_s a s = (Inr a, s)"

definition raise_s :: "error \<Rightarrow> ('s, 'a) io" where
  "raise_s e s = (Inl e, s)"

text \<open>
  \<^verbatim>\<open>StreamReader.readexactly\<close> on the bytes that arrive before the end of the
  stream: with fewer than \<open>n\<close> of them it raises \<^verbatim>\<open>IncompleteReadError\<close> and
  has consumed what there was.
\<close>

definition readexactly :: "nat \<Rightarrow> (byte list, byte list) io" where
  "readexactly n s =
     (if length s < n then (Inl IncompleteReadError, []) else (Inr (take n s), drop n s))"

text \<open>\<^verbatim>\<open>int.from_bytes(bs, 'big')\<close>.\<close>

definition from_bytes_big :: "byte list \<Rightarrow> nat" where
  "from_bytes_big bs = foldl (\<lambda>acc b. acc * 256 + unat b) 0 bs"

definition read_int :: "nat \<Rightarrow> (byte list, nat) io" where
  "read_int n = bind_s (readexactly n) (\<lambda>bs. return_s (from_bytes_big bs))"

text \<open>A computation on the stream, run on the reader of a video object.\<close>

definition on_reader :: "(byte list, 'a) io \<Rightarrow> ('z Video, 'a) io" where
  "on_reader m v = (case m (reader v) of (r, s') \<Rightarrow> (r, v\<lparr>reader := s'\<rparr>))"

text \<open>
  \<^verbatim>\<open>self.decompress(data)\<close>: what the zlib object returns and how its state
  changes is given by \<open>inflate\<close>, with \<open>None\<close> where zlib raises its error.
\<close>

type_synonym 'z inflate = "'z \<Rightarrow> byte list \<Rightarrow> byte list option \<times> 'z"

definition call_decompress :: "'z inflate \<Rightarrow> byte list \<Rightarrow> ('z Video, byte list) io" where
  "call_decompress inflate bs v =
     (case inflate (decompress v) bs of
        (None, z') \<Rightarrow> (Inl DecompressError, v\<lparr>decompress := z'\<rparr>)
      | (Some out, z') \<Rightarrow> (Inr out, v\<lparr>decompress := z'\<rparr>))"

section \<open>\<^verbatim>\<open>Video.read\<close>\<close>

text \<open>
  \<^verbatim>\<open>np.ndarray((h, w, 4), 'B', bs)\<close>: an array over the first \<open>h * w * 4\<close> bytes of
  \<open>bs\<close>, which numpy refuses when there are fewer.
\<close>

definition np_ndarray :: "nat \<Rightarrow> nat \<Rightarrow> byte list \<Rightarrow> error + buffer" where
  "np_ndarray h w bs =
     (if length bs < h * w * 4 then Inl BufferTooSmall
      else Inr (map (\<lambda>i. map (\<lambda>j. take 4 (drop ((i * w + j) * 4) bs)) [0..<w]) [0..<h]))"

text \<open>
  \<^verbatim>\<open>d[py:py + h, px:px + w] = src\<close> for \<open>d\<close> of shape \<open>(H, W, 4)\<close> and \<open>src\<close> of
  shape \<open>(h, w, 4)\<close>. The slices are clipped to the buffer; numpy raises
  \<^verbatim>\<open>ValueError\<close> unless each extent of \<open>src\<close> equals the clipped extent or is 1
  (broadcasting, which here only arises when the clipped extent is 0).
\<close>

definition assign_rect ::
  "nat \<Rightarrow> nat \<Rightarrow> nat \<Rightarrow> nat \<Rightarrow> nat \<Rightarrow> nat \<Rightarrow> buffer \<Rightarrow> buffer \<Rightarrow> error + buffer" where
  "assign_rect H W py px h w src d =
     (let h' = min (py + h) H - min py H; w' = min (px + w) W - min px W
      in if (h = h' \<or> h = 1) \<and> (w = w' \<or> w = 1)
         then Inr (map (\<lambda>i.
                if py \<le> i \<and> i < py + h'
                then map (\<lambda>j. if px \<le> j \<and> j < px + w' then src ! (i - py) ! (j - px) else d ! i ! j)
                       [0..<length (d ! i)]
                else d ! i) [0..<length d])
         else Inl BroadcastError)"

text \<open>\<^verbatim>\<open>d[py:py + h, px:px + w, k] = c\<close>.\<close>

definition fill_channel :: "nat \<Rightarrow> nat \<Rightarrow> nat \<Rightarrow> nat \<Rightarrow> nat \<Rightarrow> byte \<Rightarrow> buffer \<Rightarrow> error + buffer" where
  "fill_channel py px h w k c d =
     (if 4 \<le> k then Inl IndexError
      else Inr (py_slice_update (int py) (int (py + h))
                  (py_slice_update (int px) (int (px + w)) (\<lambda>p. p[k := c])) d))"

text \<open>The last four lines of \<^verbatim>\<open>read\<close>: allocate on the first call, store, mark.\<close>

definition store_rect :: "nat \<Rightarrow> nat \<Rightarrow> nat \<Rightarrow> nat \<Rightarrow> byte list \<Rightarrow> ('z Video, unit) io" where
  "store_rect px py w h bs v =
     (let d0 = (case data v of None \<Rightarrow> np_zeros (vheight v) (vwidth v) | Some d \<Rightarrow> d);
          v0 = v\<lparr>data := Some d0\<rparr>
      in case bind_e (np_ndarray h w bs) (\<lambda>src. assign_rect (vheight v) (vwidth v) py px h w src d0) of
           Inl e \<Rightarrow> (Inl e, v0)
         | Inr d1 \<Rightarrow>
             (case bind_e (str_index (mode v) CHR ''a'') (\<lambda>k. fill_channel py px h w k 255 d1) of
                Inl e \<Rightarrow> (Inl e, v0\<lparr>data := Some d1\<rparr>)
              | Inr d2 \<Rightarrow> (Inr (), v0\<lparr>data := Some d2\<rparr>)))"

definition Video_read :: "'z inflate \<Rightarrow> ('z Video, unit) io" where
  "Video_read inflate =
     bind_s (on_reader (read_int 2)) (\<lambda>px.
     bind_s (on_reader (read_int 2)) (\<lambda>py.
     bind_s (on_reader (read_int 2)) (\<lambda>w.
     bind_s (on_reader (read_int 2)) (\<lambda>h.
     bind_s (on_reader (read_int 4)) (\<lambda>encoding.
     bind_s
       (if encoding = 0 then on_reader (readexactly (h * w * 4))
        else if encoding = 6 then
          bind_s (on_reader (read_int 4)) (\<lambda>len.
          bind_s (on_reader (readexactly len)) (\<lambda>bs. call_decompress inflate bs))
        else raise_s (UnsupportedEncoding encoding))
       (\<lambda>bs. store_rect px py w h bs))))))"

section \<open>\<^verbatim>\<open>Client.read\<close>\<close>

datatype UpdateType = VIDEO

text \<open>\<^verbatim>\<open>UpdateType(n)\<close> raises \<^verbatim>\<open>ValueError\<close> for a value that is not a member.\<close>

definition UpdateType_of :: "nat \<Rightarrow> error + UpdateType" where
  "UpdateType_of n = (if n = 0 then Inr VIDEO else Inl (InvalidUpdateType n))"

text \<open>
  \<^verbatim>\<open>Client\<close>. A connection has one stream: \<^verbatim>\<open>Client.reader\<close> and the reader of
  the video are the same object, whose unread bytes the model keeps once, in the video.
\<close>

record 'z Client =
  video :: "'z Video"

definition on_video :: "('z Video, 'a) io \<Rightarrow> ('z Client, 'a) io" where
  "on_video m c = (case m (video c) of (r, v') \<Rightarrow> (r, c\<lparr>video := v'\<rparr>))"

text \<open>\<^verbatim>\<open>for _ in range(n): await m\<close>.\<close>

fun repeat_s :: "nat \<Rightarrow> ('s, unit) io \<Rightarrow> ('s, unit) io" where
  "repeat_s 0 m = return_s ()"
| "repeat_s (Suc n) m = bind_s m (\<lambda>_. repeat_s n m)"

definition Client_read :: "'z inflate \<Rightarrow> ('z Client, UpdateType) io" where
  "Client_read inflate =
     bind_s (on_video (on_reader (read_int 1))) (\<lambda>code.
     bind_s (\<lambda>c. (UpdateType_of code, c)) (\<lambda>update_type.
     bind_s
       (if update_type = VIDEO then
          bind_s (on_video (on_reader (readexactly 1))) (\<lambda>_.
          bind_s (on_video (on_reader (read_int 2))) (\<lambda>n.
          repeat_s n (on_video (Video_read inflate))))
        else return_s ())
       (\<lambda>_. return_s update_type)))"

section \<open>Notions used in the statements\<close>

text \<open>An array of \<open>h\<close> rows and \<open>w\<close> columns.\<close>

definition is_array :: "nat \<Rightarrow> nat \<Rightarrow> 'a list list \<Rightarrow> bool" where
  "is_array h w m \<longleftrightarrow> length m = h \<and> list_all (\<lambda>r. length r = w) m"

text \<open>
  The screen that \<^verbatim>\<open>detect_screens\<close> builds from the rectangle with the corners
  \<open>(u0, v0)\<close> and \<open>(u1, v1)\<close>, each given as column and row.
\<close>

definition screen_of :: "nat \<Rightarrow> nat \<Rightarrow> nat \<Rightarrow> nat \<Rightarrow> Screen" where
  "screen_of u0 v0 u1 v1 =
     \<lparr>x = int u0, y = int v0, width = int u1 - int u0, height = int v1 - int v0\<rparr>"

text \<open>The filled area of a working mask: the number of its non-zero cells.\<close>

definition filled_area :: "int8 list list \<Rightarrow> nat" where
  "filled_area m = sum_list (map (\<lambda>r. length (filter (\<lambda>e. e \<noteq> 0) r)) m)"

text \<open>The invariant of the buffer: it is absent or has the negotiated shape.\<close>

definition video_ok :: "'z Video \<Rightarrow> bool" where
  "video_ok v \<longleftrightarrow>
     (case data v of None \<Rightarrow> True | Some d \<Rightarrow> has_shape (vheight v) (vwidth v) d)"

text \<open>The region \<open>(rx, ry, rw, rh)\<close> holds the pixel in row \<open>i\<close> and column \<open>j\<close>.\<close>

definition in_region :: "nat \<times> nat \<times> nat \<times> nat \<Rightarrow> nat \<Rightarrow> nat \<Rightarrow> bool" where
  "in_region r i j \<longleftrightarrow>
     (case r of (rx, ry, rw, rh) \<Rightarrow> ry \<le> i \<and> i < ry + rh \<and> rx \<le> j \<and> j < rx + rw)"

text \<open>A buffer of 1000 rows and 2000 columns in which exactly the two regions are marked.\<close>

definition two_regions :: "unit Video" where
  "two_regions =
     \<lparr>reader = [], writer = [], decompress = (), name = [], vwidth = 2000, vheight = 1000,
        mode = ''rgba'',
        data = Some (map (\<lambda>i. map (\<lambda>j.
                 [0, 0, 0, if in_region (0, 0, 800, 600) i j \<or> in_region (800, 0, 800, 600) i j
                           then 255 else 0]) [0..<2000]) [0..<1000])\<rparr>"

text \<open>The buffer of 600 rows and 1600 columns that consists of the two regions.\<close>

definition two_screens :: "unit Video" where
  "two_screens =
     \<lparr>reader = [], writer = [], decompress = (), name = [], vwidth = 1600, vheight = 600,
        mode = ''rgba'', data = Some (replicate 600 (replicate 1600 [0, 0, 0, 255]))\<rparr>"

text \<open>
  The fields of the rectangle header at the front of a stream: position and size as
  \<open>(x, y, width, height)\<close>, and the encoding code.
\<close>

definition rect_header :: "byte list \<Rightarrow> nat \<times> nat \<times> nat \<times> nat" where
  "rect_header s =
     (from_bytes_big (take 2 s), from_bytes_big (take 2 (drop 2 s)),
      from_bytes_big (take 2 (drop 4 s)), from_bytes_big (take 2 (drop 6 s)))"

definition rect_encoding :: "byte list \<Rightarrow> nat" where
  "rect_encoding s = from_bytes_big (take 4 (drop 8 s))"

text \<open>
  A sequence of \<open>n\<close> calls of \<^verbatim>\<open>Video.read\<close> that all succeed: the rectangles
  they decoded, in order, and the video object they leave.
\<close>

fun successful_reads ::
  "'z inflate \<Rightarrow> nat \<Rightarrow> 'z Video \<Rightarrow> ((nat \<times> nat \<times> nat \<times> nat) list \<times> 'z Video) option" where
  "successful_reads inflate 0 v = Some ([], v)"
| "successful_reads inflate (Suc n) v =
     (case Video_read inflate v of
        (Inl e, v') \<Rightarrow> None
      | (Inr u, v') \<Rightarrow>
          map_option (\<lambda>(rs, v''). (rect_header (reader v) # rs, v'')) (successful_reads inflate n v'))"

text \<open>The pixel in row \<open>i\<close> and column \<open>j\<close> lies in one of the rectangles.\<close>

definition covered :: "(nat \<times> nat \<times> nat \<times> nat) list \<Rightarrow> nat \<Rightarrow> nat \<Rightarrow> bool" where
  "covered rs i j \<longleftrightarrow> list_ex (\<lambda>r. in_region r i j) rs"

text \<open>What \<^verbatim>\<open>read\<close> does after the header: the payload, then the store.\<close>

definition read_body :: "'z inflate \<Rightarrow> nat \<times> nat \<times> nat \<times> nat \<Rightarrow> nat \<Rightarrow> ('z Video, unit) io" where
  "read_body inflate r encoding =
     (case r of (px, py, w, h) \<Rightarrow>
        bind_s
          (if encoding = 0 then on_reader (readexactly (h * w * 4))
           else if encoding = 6 then
             bind_s (on_reader (read_int 4)) (\<lambda>len.
             bind_s (on_reader (readexactly len)) (\<lambda>bs. call_decompress inflate bs))
           else raise_s (UnsupportedEncoding encoding))
          (\<lambda>bs. store_rect px py w h bs))"

text \<open>The exceptions that can come out of storing a rectangle.\<close>

definition store_error :: "error \<Rightarrow> bool" where
  "store_error e \<longleftrightarrow> e \<in> {BufferTooSmall, BroadcastError, SubstringNotFound, IndexError}"

text \<open>The client with its stream advanced to \<open>s\<close>.\<close>

definition with_stream :: "'z Client \<Rightarrow> byte list \<Rightarrow> 'z Client" where
  "with_stream c s = c\<lparr>video := (video c)\<lparr>reader := s\<rparr>\<rparr>"

text \<open>The buffer \<^verbatim>\<open>read\<close> stores into: the one there is, or a new one of zeros.\<close>

definition buffer0 :: "'z Video \<Rightarrow> buffer" where
  "buffer0 v = (case data v of None \<Rightarrow> np_zeros (vheight v) (vwidth v) | Some d \<Rightarrow> d)"

section \<open>The corner tests\<close>

lemma row_and_minus1:
  "map (\<lambda>u. u = - 1) (map2 (\<lambda>u v. u AND v) r s) =
   map2 (\<lambda>u v. u \<and> v) (map (\<lambda>u. u = (- 1 :: int8)) r) (map (\<lambda>u. u = - 1) s)"
proof (induction r arbitrary: s)
  case Nil
  show ?case by simp
next
  case (Cons u r)
  show ?case
  proof (cases s)
    case Nil
    then show ?thesis by simp
  next
    case (Cons v s')
    then show ?thesis using Cons.IH [of s'] by (simp add: and_eq_minus_1_iff)
  qed
qed

lemma arr_and_minus1:
  "arr_eq (arr_and p q) (- 1) = arr_conj (arr_eq p (- 1)) (arr_eq q (- 1))"
proof (induction p arbitrary: q)
  case Nil
  show ?case by (simp add: arr_eq_def arr_and_def arr_conj_def)
next
  case (Cons r p)
  show ?case
  proof (cases q)
    case Nil
    then show ?thesis by (simp add: arr_eq_def arr_and_def arr_conj_def)
  next
    case (Cons s q')
    then show ?thesis
      using Cons.IH [of q'] row_and_minus1 [of r s]
      by (simp add: arr_eq_def arr_and_def arr_conj_def)
  qed
qed

text \<open>
  C6. Each of the four corner arrays the code computes (the AND of two differences,
  compared with \<open>- 1\<close>) is, cell by cell, the array of the specification (both
  differences equal \<open>- 1\<close>). This holds for every working mask, so in particular for
  masks whose values are 0 or 1.
\<close>

theorem corner_tests_agree:
  "top_left msk = spec_top_left msk \<and> top_right msk = spec_top_right msk \<and>
   bottom_left msk = spec_bottom_left msk \<and> bottom_right msk = spec_bottom_right msk"
  by (simp add: top_left_def top_right_def bottom_left_def bottom_right_def
      spec_top_left_def spec_top_right_def spec_bottom_left_def spec_bottom_right_def
      arr_and_minus1)

section \<open>Rounding to a double\<close>

lemma bitlen_rat_bounds:
  assumes "0 < a"
  shows "(2::rat) powi (bitlen a - 1) \<le> of_int a" "of_int a < (2::rat) powi (bitlen a)"
proof -
  from bitlen_bounds [OF assms] have lo: "2 ^ nat (bitlen a - 1) \<le> a" and hi: "a < 2 ^ nat (bitlen a)"
    by simp_all
  have pos: "1 \<le> bitlen a" using assms by (auto simp: bitlen_alt_def)
  have "(of_int (2 ^ nat (bitlen a - 1)) :: rat) \<le> of_int a" using lo by (simp only: of_int_le_iff)
  then show "(2::rat) powi (bitlen a - 1) \<le> of_int a"
    using pos by (simp add: power_int_def)
  have "(of_int a :: rat) < of_int (2 ^ nat (bitlen a))" using hi by (simp only: of_int_less_iff)
  then show "of_int a < (2::rat) powi (bitlen a)"
    using pos by (simp add: power_int_def)
qed

lemma pow2_le_iff: "(2::rat) powi m \<le> 2 powi n \<longleftrightarrow> m \<le> n"
proof
  assume le: "(2::rat) powi m \<le> 2 powi n"
  show "m \<le> n"
  proof (rule ccontr)
    assume "\<not> m \<le> n"
    then have "n < m" by simp
    then have "(2::rat) powi n < 2 powi m" by (rule power_int_strict_increasing) simp
    with le show False by simp
  qed
next
  assume "m \<le> n"
  then show "(2::rat) powi m \<le> 2 powi n" by (rule power_int_increasing) simp
qed

lemma pow2_less_iff: "(2::rat) powi m < 2 powi n \<longleftrightarrow> m < n"
  using pow2_le_iff [of n m] by (simp add: not_le [symmetric])

lemma ilog2_bounds:
  assumes "0 < q"
  shows "2 powi (ilog2 q) \<le> q" "q < 2 powi (ilog2 q + 1)"
proof -
  obtain a b where ab: "quotient_of q = (a, b)" by (cases "quotient_of q")
  then have b: "0 < b" by (rule quotient_of_denom_pos)
  have q: "q = of_int a / of_int b" using ab by (rule quotient_of_div)
  have a: "0 < a" using assms b q by (simp add: zero_less_divide_iff)
  note A = bitlen_rat_bounds [OF a] and B = bitlen_rat_bounds [OF b]
  define k where "k = bitlen a - bitlen b"
  have b': "(0::rat) < of_int b" using b by simp
  have "q < 2 powi (bitlen a) / 2 powi (bitlen b - 1)"
    unfolding q using A(2) B(1) b' a
    by (intro frac_less) simp_all
  also have "\<dots> = 2 powi (k + 1)"
    by (simp add: k_def power_int_diff power_int_add)
  finally have up: "q < 2 powi (k + 1)" .
  have "2 powi (bitlen a - 1) / 2 powi (bitlen b) \<le> q"
    unfolding q using A(1) B(2) b' a
    by (intro frac_le) (simp_all add: less_imp_le)
  moreover have "(2::rat) powi (bitlen a - 1) / 2 powi (bitlen b) = 2 powi (k - 1)"
    by (simp add: k_def power_int_diff)
  ultimately have lo: "2 powi (k - 1) \<le> q" by simp
  have il: "ilog2 q = (if 2 powi k \<le> q then k else k - 1)"
    by (simp add: ilog2_def ab k_def Let_def)
  show "2 powi (ilog2 q) \<le> q" using lo by (simp add: il)
  show "q < 2 powi (ilog2 q + 1)" using up by (simp add: il not_le)
qed

lemma round_half_even_error: "\<bar>of_int (round_half_even t) - t\<bar> \<le> 1 / 2"
proof -
  define n where "n = \<lfloor>t\<rfloor>"
  have fl: "of_int n \<le> t" "t < of_int n + 1" unfolding n_def by linarith+
  have "round_half_even t = (if t - of_int n < 1 / 2 then n else if 1 / 2 < t - of_int n then n + 1
      else if even n then n else n + 1)"
    by (simp add: round_half_even_def Let_def n_def)
  then show ?thesis using fl by (auto simp: abs_if)
qed

lemma round_half_even_le:
  assumes "t \<le> of_int N"
  shows "round_half_even t \<le> N"
proof -
  have le: "\<lfloor>t\<rfloor> \<le> N" using assms by (simp add: floor_le_iff)
  show ?thesis
  proof (cases "\<lfloor>t\<rfloor> = N")
    case True
    then have "t = of_int N" using assms by linarith
    then show ?thesis by (simp add: round_half_even_def)
  next
    case False
    then have "\<lfloor>t\<rfloor> + 1 \<le> N" using le by simp
    then show ?thesis unfolding round_half_even_def Let_def by auto
  qed
qed

lemma round_half_even_ge:
  assumes "of_int N \<le> t"
  shows "N \<le> round_half_even t"
proof -
  have "N \<le> \<lfloor>t\<rfloor>" using assms by (simp add: le_floor_iff)
  then show ?thesis unfolding round_half_even_def Let_def by auto
qed

lemma round_half_even_int [simp]: "round_half_even (of_int n) = n"
  by (simp add: round_half_even_def)

lemma pow2_pos [simp]: "(0::rat) < 2 powi e"
  by (simp add: zero_less_power_int)

lemma round_double_nonneg:
  assumes "0 \<le> q"
  shows "0 \<le> round_double q"
proof (cases "q = 0")
  case True
  then show ?thesis by (simp add: round_double_def)
next
  case False
  define e where "e = max (ilog2 q - 52) (- 1074)"
  have "of_int 0 \<le> q / 2 powi e" using assms by simp
  then have "0 \<le> round_half_even (q / 2 powi e)" by (rule round_half_even_ge)
  then show ?thesis using False by (simp add: round_double_def Let_def e_def)
qed

lemma round_double_le:
  assumes "0 \<le> q" "q \<le> 2 powi K" "- 1074 \<le> K"
  shows "round_double q \<le> 2 powi K"
proof (cases "q = 0")
  case True
  then show ?thesis by (simp add: round_double_def less_imp_le)
next
  case False
  then have pos: "0 < q" using assms(1) by simp
  define e where "e = max (ilog2 q - 52) (- 1074)"
  have "(2::rat) powi (ilog2 q) \<le> 2 powi K"
    using ilog2_bounds(1) [OF pos] assms(2) by simp
  then have "ilog2 q \<le> K" by (simp only: pow2_le_iff)
  then have eK: "e \<le> K" using assms(3) by (simp add: e_def)
  have "q / 2 powi e \<le> 2 powi K / 2 powi e"
    using assms(2) by (simp add: divide_right_mono less_imp_le)
  also have "\<dots> = 2 powi (K - e)" by (simp add: power_int_diff)
  also have "\<dots> = of_int (2 ^ nat (K - e))" using eK by (simp add: power_int_def)
  finally have "round_half_even (q / 2 powi e) \<le> 2 ^ nat (K - e)"
    by (rule round_half_even_le)
  then have "(of_int (round_half_even (q / 2 powi e)) :: rat) \<le> of_int (2 ^ nat (K - e))"
    by (simp only: of_int_le_iff)
  then have "of_int (round_half_even (q / 2 powi e)) * (2::rat) powi e \<le> of_int (2 ^ nat (K - e)) * 2 powi e"
    by (rule mult_right_mono) (simp add: less_imp_le)
  also have "of_int (2 ^ nat (K - e)) * (2::rat) powi e = 2 powi (K - e) * 2 powi e"
    using eK by (simp add: power_int_def)
  also have "\<dots> = 2 powi K" by (simp add: power_int_add [symmetric])
  finally show ?thesis using False by (simp add: round_double_def Let_def e_def)
qed

lemma round_double_error:
  assumes "2 powi (- 1022) \<le> q"
  shows "\<bar>round_double q - q\<bar> \<le> q / 2 ^ 53"
proof -
  have pos: "0 < q" using assms pow2_pos [of "- 1022"] by linarith
  define k where "k = ilog2 q"
  define e where "e = max (k - 52) (- 1074)"
  have "(2::rat) powi (- 1022) < 2 powi (k + 1)"
    using ilog2_bounds(2) [OF pos] assms by (simp add: k_def)
  then have "- 1022 < k + 1" by (simp only: pow2_less_iff)
  then have e: "e = k - 52" by (simp add: e_def)
  have rd: "round_double q = of_int (round_half_even (q / 2 powi e)) * 2 powi e"
    using pos by (simp add: round_double_def Let_def e_def k_def)
  have "round_double q - q = (of_int (round_half_even (q / 2 powi e)) - q / 2 powi e) * 2 powi e"
    unfolding rd by (simp add: left_diff_distrib)
  then have "\<bar>round_double q - q\<bar> = \<bar>of_int (round_half_even (q / 2 powi e)) - q / 2 powi e\<bar> * 2 powi e"
    by (simp add: abs_mult)
  also have "\<dots> \<le> 1 / 2 * 2 powi e"
    by (intro mult_right_mono round_half_even_error) (simp add: less_imp_le)
  also have "\<dots> = 2 powi k / 2 ^ 53"
    by (simp add: e power_int_diff)
  also have "\<dots> \<le> q / 2 ^ 53"
    using ilog2_bounds(1) [OF pos] by (simp add: k_def divide_right_mono)
  finally show ?thesis .
qed

lemma round_double_int:
  assumes "0 \<le> n" "n \<le> 2 ^ 53"
  shows "round_double (of_int n) = of_int n"
proof (cases "n = 0")
  case True
  then show ?thesis by (simp add: round_double_def)
next
  case False
  then have pos: "(0::rat) < of_int n" using assms(1) by simp
  define e where "e = max (ilog2 (of_int n) - 52) (- 1074)"
  have ne: "(of_int n :: rat) \<noteq> 0" using False by simp
  have rd: "round_double (of_int n) = of_int (round_half_even (of_int n / 2 powi e)) * 2 powi e"
    using ne by (simp add: round_double_def Let_def e_def)
  show ?thesis
  proof (cases "n = 2 ^ 53")
    case True
    have "(2::rat) powi 53 \<le> of_int n" using True by simp
    have "(2::rat) powi (ilog2 (of_int n)) \<le> 2 powi 53"
      using ilog2_bounds(1) [OF pos] True by simp
    then have u: "ilog2 (of_int n) \<le> 53" by (simp only: pow2_le_iff)
    have "(2::rat) powi 53 < 2 powi (ilog2 (of_int n) + 1)"
      using ilog2_bounds(2) [OF pos] True by simp
    then have "53 < ilog2 (of_int n) + 1" by (simp only: pow2_less_iff)
    with u have "ilog2 (of_int n) = 53" by simp
    then have e: "e = 1" by (simp add: e_def)
    have "(of_int n :: rat) / 2 powi e = of_int (2 ^ 52)" using True by (simp add: e)
    then have "round_half_even (of_int n / 2 powi e) = 2 ^ 52" by (simp only: round_half_even_int)
    then show ?thesis unfolding rd by (simp add: e True)
  next
    case False
    then have lt: "n < 2 ^ 53" using assms(2) by simp
    have "(2::rat) powi (ilog2 (of_int n)) \<le> of_int n" by (rule ilog2_bounds(1) [OF pos])
    also have "(of_int n :: rat) < of_int (2 ^ 53)" using lt by (simp only: of_int_less_iff)
    finally have "(2::rat) powi (ilog2 (of_int n)) < 2 powi 53" by simp
    then have "ilog2 (of_int n) < 53" by (simp only: pow2_less_iff)
    then have e: "e \<le> 0" by (simp add: e_def)
    have "(of_int n :: rat) / 2 powi e = of_int n * 2 powi (- e)"
      by (simp add: power_int_minus field_simps)
    also have "\<dots> = of_int (n * 2 ^ nat (- e))" using e by (simp add: power_int_def)
    finally have eq: "(of_int n :: rat) / 2 powi e = of_int (n * 2 ^ nat (- e))" .
    have "round_half_even (of_int n / 2 powi e) = n * 2 ^ nat (- e)"
      unfolding eq by (rule round_half_even_int)
    then have "round_double (of_int n) = of_int n * (2 powi (- e) * 2 powi e)"
      unfolding rd using e by (simp add: power_int_def)
    then show ?thesis by (simp add: power_int_add [symmetric])
  qed
qed

lemma overflows_code [code]: "overflows m \<longleftrightarrow> 0 < m \<and> 1024 \<le> ilog2 m"
proof (cases "0 < m")
  case True
  have "(2::rat) ^ 1024 \<le> m \<longleftrightarrow> 1024 \<le> ilog2 m"
  proof
    assume "(2::rat) ^ 1024 \<le> m"
    then have "(2::rat) powi 1024 < 2 powi (ilog2 m + 1)"
      using ilog2_bounds(2) [OF True] by simp
    then show "1024 \<le> ilog2 m" by (simp only: pow2_less_iff)
  next
    assume "1024 \<le> ilog2 m"
    then have "(2::rat) powi 1024 \<le> 2 powi (ilog2 m)" by (simp only: pow2_le_iff)
    then show "(2::rat) ^ 1024 \<le> m" using ilog2_bounds(1) [OF True] by simp
  qed
  then show ?thesis using True by (simp add: overflows_def)
next
  case False
  have "(0::rat) < 2 ^ 1024" by simp
  then show ?thesis using False unfolding overflows_def by linarith
qed

lemma float_of_rat_total:
  assumes "\<bar>r\<bar> \<le> 2 powi K" "- 1074 \<le> K" "K < 1024"
  shows "float_of_rat r = Inr (Double (r < 0) (round_double \<bar>r\<bar>))"
    and "round_double \<bar>r\<bar> \<le> 2 powi K"
proof -
  show le: "round_double \<bar>r\<bar> \<le> 2 powi K"
    by (rule round_double_le [OF _ assms(1,2)]) simp
  have "(2::rat) powi K < 2 powi 1024" using assms(3) by (simp only: pow2_less_iff)
  with le have "round_double \<bar>r\<bar> < 2 ^ 1024" by simp
  then show "float_of_rat r = Inr (Double (r < 0) (round_double \<bar>r\<bar>))"
    by (simp add: float_of_rat_def overflows_def Let_def)
qed

lemma float_of_int_exact:
  assumes "0 \<le> n" "n \<le> 2 ^ 53"
  shows "float_of_int n = Inr (Double False (of_int n))"
proof -
  have "(of_int n :: rat) \<le> of_int (2 ^ 53)" using assms(2) by (simp only: of_int_le_iff)
  then have "(of_int n :: rat) < 2 ^ 1024" by simp
  then show ?thesis
    using assms by (simp add: float_of_int_def float_of_rat_def overflows_def round_double_int)
qed

section \<open>The score of a screen is defined\<close>

lemma limit_loop_total:
  assumes "0 \<le> q0" "q0 \<le> mx" "1 \<le> q1" "q1 \<le> mx" "0 \<le> d" "d < n" "coprime n d"
    "q1 * n + q0 * d = D" "mx < D"
  shows "\<exists>p0' q0' p1' q1'. limit_loop mx p0 q0 p1 q1 n d = Inr (p0', q0', p1', q1')
           \<and> 0 \<le> q0' \<and> q0' \<le> mx \<and> 1 \<le> q1' \<and> q1' \<le> mx"
  using assms
proof (induction mx p0 q0 p1 q1 n d rule: limit_loop.induct)
  case (1 mx p0 q0 p1 q1 n d)
  have dpos: "0 < d"
  proof (rule ccontr)
    assume "\<not> 0 < d"
    with "1.prems" have d0: "d = 0" by simp
    with "1.prems"(6,7) have "n = 1" by simp
    with d0 "1.prems"(8) have "q1 = D" by simp
    with "1.prems"(4,9) show False by simp
  qed
  define a where "a = n div d"
  define q2 where "q2 = q0 + a * q1"
  have "0 < a"
    unfolding a_def using dpos "1.prems"(6) by (simp add: pos_imp_zdiv_pos_iff)
  then have a1: "1 \<le> a" by simp
  show ?case
  proof (cases "mx < q2")
    case True
    then show ?thesis
      using dpos "1.prems" by (subst limit_loop.simps) (simp add: a_def q2_def Let_def)
  next
    case False
    have nmod: "n - a * d = n mod d"
      by (simp add: a_def minus_div_mult_eq_mod)
    have q2ge: "1 \<le> q2"
    proof -
      have "q1 \<le> a * q1" using a1 "1.prems"(3) by (simp add: mult_le_cancel_right1)
      then show ?thesis unfolding q2_def using "1.prems"(1,3) by linarith
    qed
    have inv: "q2 * d + q1 * (n - a * d) = D"
      using "1.prems"(8) by (simp add: q2_def algebra_simps)
    have cop: "coprime d (n - a * d)"
      unfolding nmod using "1.prems"(7) dpos by (simp add: coprime_commute)
    have "\<exists>p0' q0' p1' q1'. limit_loop mx p1 q1 (p0 + a * p1) q2 d (n - a * d) = Inr (p0', q0', p1', q1')
           \<and> 0 \<le> q0' \<and> q0' \<le> mx \<and> 1 \<le> q1' \<and> q1' \<le> mx"
    proof (rule "1.IH" [OF _ a_def q2_def])
      show "d \<noteq> 0" using dpos by simp
      show "\<not> mx < q2" by (rule False)
      show "0 \<le> q1" using "1.prems"(3) by simp
      show "q1 \<le> mx" by (rule "1.prems"(4))
      show "1 \<le> q2" by (rule q2ge)
      show "q2 \<le> mx" using False by simp
      show "0 \<le> n - a * d" unfolding nmod using dpos by simp
      show "n - a * d < d" unfolding nmod using dpos by simp
      show "coprime d (n - a * d)" by (rule cop)
      show "q2 * d + q1 * (n - a * d) = D" by (rule inv)
      show "mx < D" by (rule "1.prems"(9))
    qed
    moreover have "limit_loop mx p0 q0 p1 q1 n d = limit_loop mx p1 q1 (p0 + a * p1) q2 d (n - a * d)"
      using dpos False by (subst limit_loop.simps) (simp add: a_def q2_def Let_def)
    ultimately show ?thesis by simp
  qed
qed

lemma limit_loop_numerators:
  assumes "limit_loop mx p0 q0 p1 q1 n d = Inr (p0', q0', p1', q1')"
    and "0 \<le> p0" "0 \<le> p1" "0 \<le> d" "d < n" "p1 * n + p0 * d = N"
  shows "0 \<le> p0' \<and> p0' \<le> N \<and> 0 \<le> p1' \<and> p1' \<le> N"
  using assms
proof (induction mx p0 q0 p1 q1 n d rule: limit_loop.induct)
  case (1 mx p0 q0 p1 q1 n d)
  have dpos: "0 < d"
  proof (rule ccontr)
    assume "\<not> 0 < d"
    with "1.prems"(4) have "d = 0" by simp
    then have "limit_loop mx p0 q0 p1 q1 n d = Inl ZeroDivisionError"
      by (subst limit_loop.simps) simp
    with "1.prems"(1) show False by simp
  qed
  define a where "a = n div d"
  define q2 where "q2 = q0 + a * q1"
  have "0 < a"
    unfolding a_def using dpos "1.prems"(5) by (simp add: pos_imp_zdiv_pos_iff)
  then have a0: "0 \<le> a" by simp
  show ?case
  proof (cases "mx < q2")
    case True
    then have "limit_loop mx p0 q0 p1 q1 n d = Inr (p0, q0, p1, q1)"
      using dpos by (subst limit_loop.simps) (simp add: a_def q2_def Let_def)
    with "1.prems"(1) have eq: "p0' = p0" "p1' = p1" by simp_all
    have "p0 * 1 \<le> p0 * d" using dpos "1.prems"(2) by (intro mult_left_mono) simp_all
    moreover have "p1 * 1 \<le> p1 * n" using dpos "1.prems"(3,5) by (intro mult_left_mono) simp_all
    moreover have "0 \<le> p0 * d" "0 \<le> p1 * n" using dpos "1.prems"(2,3,5) by simp_all
    ultimately show ?thesis using "1.prems"(2,3,6) unfolding eq by linarith
  next
    case False
    have nmod: "n - a * d = n mod d"
      by (simp add: a_def minus_div_mult_eq_mod)
    have step: "limit_loop mx p0 q0 p1 q1 n d = limit_loop mx p1 q1 (p0 + a * p1) q2 d (n - a * d)"
      using dpos False by (subst limit_loop.simps) (simp add: a_def q2_def Let_def)
    show ?thesis
    proof (rule "1.IH" [OF _ a_def q2_def])
      show "d \<noteq> 0" using dpos by simp
      show "\<not> mx < q2" by (rule False)
      show "limit_loop mx p1 q1 (p0 + a * p1) q2 d (n - a * d) = Inr (p0', q0', p1', q1')"
        using "1.prems"(1) by (simp only: step)
      show "0 \<le> p1" by (rule "1.prems"(3))
      show "0 \<le> p0 + a * p1" using a0 "1.prems"(2,3) by simp
      show "0 \<le> n - a * d" unfolding nmod using dpos by simp
      show "n - a * d < d" unfolding nmod using dpos by simp
      show "(p0 + a * p1) * d + p1 * (n - a * d) = N"
        using "1.prems"(6) by (simp add: algebra_simps)
    qed
  qed
qed

lemma quotient_of_Fract_le:
  assumes "0 < b"
  shows "snd (quotient_of (Fract a b)) \<le> b"
proof -
  have g: "0 < gcd a b" using assms by simp
  have "b div gcd a b \<le> b"
    using assms g int_div_le_self by simp
  then show ?thesis using assms by (simp add: quotient_of_Fract normalize_def Let_def)
qed

lemma quotient_of_Fract_fst:
  assumes "0 \<le> a" "0 < b"
  shows "0 \<le> fst (quotient_of (Fract a b))" "fst (quotient_of (Fract a b)) \<le> a"
proof -
  have g: "0 < gcd a b" using assms by simp
  have "a div gcd a b \<le> a"
    using assms(1) int_div_le_self [of a "gcd a b"] by (cases "a = 0") simp_all
  moreover have "0 \<le> a div gcd a b" using assms(1) g by (simp add: pos_imp_zdiv_nonneg_iff)
  ultimately show "0 \<le> fst (quotient_of (Fract a b))" "fst (quotient_of (Fract a b)) \<le> a"
    using assms by (simp_all add: quotient_of_Fract normalize_def Let_def)
qed

lemma Fract_range:
  assumes "0 \<le> p" "1 \<le> q"
  shows "0 \<le> Fract p q" "Fract p q \<le> of_int p"
proof -
  have q: "(1::rat) \<le> of_int q" using assms(2) by simp
  have p: "(0::rat) \<le> of_int p" using assms(1) by simp
  have eq: "Fract p q = of_int p / of_int q" by (rule Fract_of_int_quotient)
  show "0 \<le> Fract p q" unfolding eq using p q by simp
  have "of_int p / of_int q \<le> (of_int p :: rat) / 1"
    using p q by (intro divide_left_mono) simp_all
  then show "Fract p q \<le> of_int p" unfolding eq by simp
qed

lemma limit_denominator_bound:
  assumes "1 \<le> mx"
  shows "\<exists>q. limit_denominator mx r = Inr q \<and> snd (quotient_of q) \<le> mx \<and>
    (0 \<le> r \<longrightarrow> 0 \<le> q \<and> q \<le> of_int ((1 + mx) * fst (quotient_of r)))"
proof -
  obtain n0 d0 where q: "quotient_of r = (n0, d0)" by (cases "quotient_of r")
  have d0pos: "0 < d0" using q by (rule quotient_of_denom_pos)
  have cop: "coprime n0 d0" using q by (rule quotient_of_coprime)
  have r: "r = Fract n0 d0" using q by (simp add: quotient_of_inject [symmetric] quotient_of_Fract normalize_stable [OF d0pos cop])
  have n0: "0 \<le> n0" if "0 \<le> r"
    using that d0pos unfolding r by (simp add: zero_le_Fract_iff)
  show ?thesis
  proof (cases "d0 \<le> mx")
    case True
    have "0 \<le> r \<longrightarrow> r \<le> of_int ((1 + mx) * n0)"
    proof
      assume "0 \<le> r"
      then have nn: "0 \<le> n0" by (rule n0)
      have "r \<le> of_int n0" unfolding r using nn d0pos by (intro Fract_range(2)) simp_all
      also have "(of_int n0 :: rat) \<le> of_int ((1 + mx) * n0)"
      proof -
        have "1 * n0 \<le> (1 + mx) * n0" using nn assms by (intro mult_right_mono) simp_all
        then show ?thesis by (simp only: of_int_le_iff mult_1)
      qed
      finally show "r \<le> of_int ((1 + mx) * n0)" .
    qed
    then show ?thesis using True assms by (simp add: limit_denominator_def q)
  next
    case False
    define a where "a = n0 div d0"
    have nmod: "n0 - a * d0 = n0 mod d0"
      by (simp add: a_def minus_div_mult_eq_mod)
    have first: "limit_loop mx 0 1 1 0 n0 d0 = limit_loop mx 1 0 a 1 d0 (n0 - a * d0)"
      using d0pos assms by (subst limit_loop.simps) (simp add: a_def Let_def)
    have "\<exists>p0' q0' p1' q1'. limit_loop mx 1 0 a 1 d0 (n0 - a * d0) = Inr (p0', q0', p1', q1')
           \<and> 0 \<le> q0' \<and> q0' \<le> mx \<and> 1 \<le> q1' \<and> q1' \<le> mx"
    proof (rule limit_loop_total [where D = d0])
      show "(0::int) \<le> 0" by simp
      show "0 \<le> mx" using assms by simp
      show "(1::int) \<le> 1" by simp
      show "1 \<le> mx" by (rule assms)
      show "0 \<le> n0 - a * d0" unfolding nmod using d0pos by simp
      show "n0 - a * d0 < d0" unfolding nmod using d0pos by simp
      show "coprime d0 (n0 - a * d0)"
        unfolding nmod using cop d0pos by (simp add: coprime_commute)
      show "1 * d0 + 0 * (n0 - a * d0) = d0" by simp
      show "mx < d0" using False by simp
    qed
    then obtain p0' q0' p1' q1' where
      res': "limit_loop mx 1 0 a 1 d0 (n0 - a * d0) = Inr (p0', q0', p1', q1')"
      and b: "0 \<le> q0'" "q0' \<le> mx" "1 \<le> q1'" "q1' \<le> mx"
      by auto
    have res: "limit_loop mx 0 1 1 0 n0 d0 = Inr (p0', q0', p1', q1')"
      using first res' by simp
    define k where "k = (mx - q0') div q1'"
    have k0: "0 \<le> k" unfolding k_def using b by (simp add: pos_imp_zdiv_nonneg_iff)
    have nz: "q0' + k * q1' \<noteq> 0"
    proof
      assume z: "q0' + k * q1' = 0"
      have "0 \<le> k * q1'" using k0 b by simp
      with z b have q00: "q0' = 0" and kq: "k * q1' = 0" by linarith+
      from kq b have "k = 0" by simp
      moreover have "0 < mx div q1'" using b by (simp add: pos_imp_zdiv_pos_iff)
      ultimately show False using q00 by (simp add: k_def)
    qed
    have kq0: "0 \<le> k * q1'" using k0 b by simp
    with nz b have pos: "0 < q0' + k * q1'" by linarith
    have "(mx - q0') div q1' * q1' + (mx - q0') mod q1' = mx - q0'"
      by simp
    moreover have "0 \<le> (mx - q0') mod q1'" using b by simp
    ultimately have kq: "k * q1' \<le> mx - q0'"
      unfolding k_def by linarith
    then have le: "q0' + k * q1' \<le> mx" by linarith
    have "k * 1 \<le> k * q1'" using b(3) k0 by (rule mult_left_mono)
    then have kmx: "k \<le> mx" using kq b(1) by linarith
    define bound1 where "bound1 = Fract (p0' + k * p1') (q0' + k * q1')"
    define bound2 where "bound2 = Fract p1' q1'"
    have b1: "snd (quotient_of bound1) \<le> mx"
      unfolding bound1_def using quotient_of_Fract_le [OF pos, of "p0' + k * p1'"] le by linarith
    have "0 < q1'" using b by simp
    from quotient_of_Fract_le [OF this, of p1'] have b2: "snd (quotient_of bound2) \<le> mx"
      unfolding bound2_def using b by linarith
    have range: "0 \<le> bound1 \<and> bound1 \<le> of_int ((1 + mx) * n0) \<and>
        0 \<le> bound2 \<and> bound2 \<le> of_int ((1 + mx) * n0)" if "0 \<le> r"
    proof -
      from that have nn: "0 \<le> n0" by (rule n0)
      have a0: "0 \<le> a" unfolding a_def using nn d0pos by (simp add: pos_imp_zdiv_nonneg_iff)
      have "0 \<le> p0' \<and> p0' \<le> n0 \<and> 0 \<le> p1' \<and> p1' \<le> n0"
      proof (rule limit_loop_numerators [OF res'])
        show "(0::int) \<le> 1" by simp
        show "0 \<le> a" by (rule a0)
        show "0 \<le> n0 - a * d0" unfolding nmod using d0pos by simp
        show "n0 - a * d0 < d0" unfolding nmod using d0pos by simp
        show "a * d0 + 1 * (n0 - a * d0) = n0" by simp
      qed
      then have p: "0 \<le> p0'" "p0' \<le> n0" "0 \<le> p1'" "p1' \<le> n0" by simp_all
      have kp: "0 \<le> k * p1'" using k0 p(3) by simp
      have "k * p1' \<le> mx * n0" using kmx p(3,4) k0 by (intro mult_mono) simp_all
      then have num: "p0' + k * p1' \<le> (1 + mx) * n0" using p(2) by (simp add: algebra_simps)
      have "p1' * 1 \<le> (1 + mx) * n0"
        using p(4) nn assms mult_right_mono [of 1 "1 + mx" n0] by simp
      then have num2: "p1' \<le> (1 + mx) * n0" by simp
      have "bound1 \<le> of_int (p0' + k * p1')"
        unfolding bound1_def using kp p(1) pos by (intro Fract_range(2)) simp_all
      also have "\<dots> \<le> of_int ((1 + mx) * n0)" using num by (simp only: of_int_le_iff)
      finally have u1: "bound1 \<le> of_int ((1 + mx) * n0)" .
      have "bound2 \<le> of_int p1'"
        unfolding bound2_def using p(3) b(3) by (intro Fract_range(2)) simp_all
      also have "\<dots> \<le> of_int ((1 + mx) * n0)" using num2 by (simp only: of_int_le_iff)
      finally have u2: "bound2 \<le> of_int ((1 + mx) * n0)" .
      have "0 \<le> bound1" unfolding bound1_def using kp p(1) pos by (intro Fract_range(1)) simp_all
      moreover have "0 \<le> bound2" unfolding bound2_def using p(3) b(3) by (intro Fract_range(1)) simp_all
      ultimately show ?thesis using u1 u2 by simp
    qed
    have "limit_denominator mx r =
        (if \<bar>bound2 - r\<bar> \<le> \<bar>bound1 - r\<bar> then Inr bound2 else Inr bound1)"
      using False b assms nz
      by (simp add: limit_denominator_def q res bind_e_def Fraction_def Let_def k_def
          bound1_def bound2_def)
    then show ?thesis using b1 b2 range q
      by (cases "\<bar>bound2 - r\<bar> \<le> \<bar>bound1 - r\<bar>") simp_all
  qed
qed

lemma limit_denominator_total:
  assumes "1 \<le> mx"
  shows "\<exists>q. limit_denominator mx r = Inr q"
  using limit_denominator_bound [OF assms, of r] by blast

text \<open>
  The ratio of two positive sizes, limited: it exists, its denominator is at most 64,
  and it lies between 0 and 65 times the numerator.
\<close>

lemma limited_ratio:
  assumes "0 < a" "0 < b"
  shows "\<exists>q. limit_denominator 64 (Fract a b) = Inr q \<and> snd (quotient_of q) \<le> 64 \<and>
    0 \<le> q \<and> q \<le> of_int (65 * a)"
proof -
  have nonneg: "0 \<le> Fract a b" using assms by (simp add: zero_le_Fract_iff)
  from limit_denominator_bound [of 64 "Fract a b"] nonneg obtain q where
    q: "limit_denominator 64 (Fract a b) = Inr q" "snd (quotient_of q) \<le> 64" "0 \<le> q"
      "q \<le> of_int ((1 + 64) * fst (quotient_of (Fract a b)))"
    by auto
  have "fst (quotient_of (Fract a b)) \<le> a"
    using assms by (intro quotient_of_Fract_fst(2)) simp_all
  then have "(1 + 64) * fst (quotient_of (Fract a b)) \<le> 65 * a" by simp
  then have "(of_int ((1 + 64) * fst (quotient_of (Fract a b))) :: rat) \<le> of_int (65 * a)"
    by (simp only: of_int_le_iff)
  with q show ?thesis by auto
qed

text \<open>
  The score of a screen of positive width and height and of an area below
  \<open>2 ^ 1000\<close>: no conversion and no product leaves the range of the doubles.
\<close>

lemma score_value:
  assumes "0 < width s" "0 < height s" "width s * height s < 2 ^ 1000"
  shows "\<exists>r1 r2.
    limit_denominator 64 (Fract (width s) (height s)) = Inr r1 \<and>
    limit_denominator 64 (Fract (height s) (width s)) = Inr r2 \<and>
    snd (quotient_of r1) \<le> 64 \<and> snd (quotient_of r2) \<le> 64 \<and> 0 \<le> r1 \<and> 0 \<le> r2 \<and>
    r1 \<le> of_int (65 * width s) \<and> r2 \<le> of_int (65 * height s) \<and>
    score s =
      Inr (if r1 \<in> screen_ratios \<or> r2 \<in> screen_ratios
           then Double False (round_double (of_int (width s * height s)))
           else float_mul (Double False (round_double (of_int (width s * height s))))
                  (float_mul (Double False (round_double (min r1 r2))) (Double False (1 / 2))))"
proof -
  let ?w = "width s" and ?h = "height s"
  have area: "0 < ?w * ?h" using assms(1,2) by simp
  define ar :: rat where "ar = of_int (?w * ?h)"
  have ar0: "0 \<le> ar" unfolding ar_def using area by (simp only: of_int_0_le_iff less_imp_le)
  have "ar < of_int (2 ^ 1000)" unfolding ar_def using assms(3) by (simp only: of_int_less_iff)
  then have A: "ar \<le> 2 powi 1000" by simp
  have abs_ar: "\<bar>ar\<bar> = ar" using ar0 by (rule abs_of_nonneg)
  have "\<bar>ar\<bar> \<le> 2 powi 1000" using A by (simp only: abs_ar)
  from float_of_rat_total(1) [OF this]
  have "float_of_rat ar = Inr (Double (ar < 0) (round_double \<bar>ar\<bar>))"
    by simp
  moreover have "\<not> ar < 0" using ar0 by simp
  ultimately have "float_of_rat ar = Inr (Double False (round_double ar))"
    by (simp only: abs_ar)
  then have v: "float_of_int (?w * ?h) = Inr (Double False (round_double (of_int (?w * ?h))))"
    by (simp only: float_of_int_def ar_def)
  from limited_ratio [OF assms(1,2)] obtain r1 where
    r1: "limit_denominator 64 (Fract ?w ?h) = Inr r1" and d1: "snd (quotient_of r1) \<le> 64"
    and p1: "0 \<le> r1" and u1: "r1 \<le> of_int (65 * ?w)"
    by blast
  from limited_ratio [OF assms(2,1)] obtain r2 where
    r2: "limit_denominator 64 (Fract ?h ?w) = Inr r2" and d2: "snd (quotient_of r2) \<le> 64"
    and p2: "0 \<le> r2" and u2: "r2 \<le> of_int (65 * ?h)"
    by blast
  have f1: "Fraction ?w ?h = Inr (Fract ?w ?h)" and f2: "Fraction ?h ?w = Inr (Fract ?h ?w)"
    using assms(1,2) by (simp_all add: Fraction_def)
  have "?w * 1 \<le> ?w * ?h" using assms(1,2) by (intro mult_left_mono) simp_all
  then have "65 * ?w \<le> 65 * (?w * ?h)" by simp
  then have "(of_int (65 * ?w) :: rat) \<le> of_int (65 * (?w * ?h))" by (simp only: of_int_le_iff)
  also have "\<dots> = 65 * ar" by (simp add: ar_def)
  also have "\<dots> \<le> 65 * 2 powi 1000" using A by simp
  also have "\<dots> \<le> 2 powi 7 * 2 powi 1000" by simp
  also have "\<dots> = 2 powi 1007" by (simp add: power_int_add [symmetric])
  finally have "r1 \<le> 2 powi 1007" using u1 by simp
  then have "min r1 r2 \<le> 2 powi 1007" by simp
  moreover have mn: "0 \<le> min r1 r2" using p1 p2 by simp
  ultimately have "\<bar>min r1 r2\<bar> \<le> 2 powi 1007" by simp
  from float_of_rat_total(1) [OF this]
  have m: "float_of_rat (min r1 r2) = Inr (Double False (round_double (min r1 r2)))"
    using mn by (simp add: not_less [symmetric] abs_of_nonneg del: min_less_iff_disj)
  have "score s =
      (if {r1, r2} \<inter> screen_ratios = {}
       then Inr (float_mul (Double False (round_double (of_int (?w * ?h))))
              (float_mul (Double False (round_double (min r1 r2))) (Double False (1 / 2))))
       else Inr (Double False (round_double (of_int (?w * ?h)))))"
    unfolding score_def v f1 f2 r1 r2 m bind_e_def sum.case ..
  also have "\<dots> =
      Inr (if r1 \<in> screen_ratios \<or> r2 \<in> screen_ratios
           then Double False (round_double (of_int (?w * ?h)))
           else float_mul (Double False (round_double (of_int (?w * ?h))))
                  (float_mul (Double False (round_double (min r1 r2))) (Double False (1 / 2))))"
    by (cases "r1 \<in> screen_ratios"; cases "r2 \<in> screen_ratios") simp_all
  finally show ?thesis using r1 r2 d1 d2 p1 p2 u1 u2 by blast
qed

lemma score_total:
  assumes "0 < width s" "0 < height s" "width s * height s < 2 ^ 1000"
  shows "\<exists>k. score s = Inr k"
  using score_value [OF assms] by blast

lemma float_of_rat_Double:
  assumes "float_of_rat r = Inr f"
  shows "\<exists>m. f = Double (r < 0) m \<and> 0 \<le> m \<and> m < 2 ^ 1024"
  using assms round_double_nonneg [of "\<bar>r\<bar>"]
  by (auto simp: float_of_rat_def Let_def overflows_def split: if_splits)

lemma float_mul_half:
  assumes "0 \<le> m" "m < 2 ^ 1024"
  shows "float_mul (Double s m) (Double False (1 / 2)) = Double s (round_double (m * (1 / 2)))"
proof -
  have "m * (1 / 2) \<le> 2 powi 1023" using assms(2) by simp
  moreover have "0 \<le> m * (1 / 2)" using assms(1) by simp
  ultimately have "round_double (m * (1 / 2)) \<le> 2 powi 1023"
    by (intro round_double_le) simp_all
  then have "round_double (m * (1 / 2)) < 2 ^ 1024" by simp
  then show ?thesis by (simp add: overflows_def Let_def)
qed

lemma float_mul_Double: "float_mul (Double s a) (Double t b) \<noteq> NaN"
  by (simp add: Let_def)

text \<open>The only exception of a score of a screen of positive size is \<^verbatim>\<open>OverflowError\<close>.\<close>

lemma float_of_rat_cases: "(\<exists>f. float_of_rat r = Inr f) \<or> float_of_rat r = Inl OverflowError"
  by (simp add: float_of_rat_def Let_def)

lemma score_cases:
  assumes "0 < width s" "0 < height s"
  shows "(\<exists>k. score s = Inr k) \<or> score s = Inl OverflowError"
proof -
  obtain r1 where r1: "limit_denominator 64 (Fract (width s) (height s)) = Inr r1"
    using limit_denominator_total [of 64 "Fract (width s) (height s)"] by auto
  obtain r2 where r2: "limit_denominator 64 (Fract (height s) (width s)) = Inr r2"
    using limit_denominator_total [of 64 "Fract (height s) (width s)"] by auto
  have f1: "Fraction (width s) (height s) = Inr (Fract (width s) (height s))"
    and f2: "Fraction (height s) (width s) = Inr (Fract (height s) (width s))"
    using assms by (simp_all add: Fraction_def)
  show ?thesis
  proof (cases "float_of_int (width s * height s)")
    case (Inl e)
    then have "e = OverflowError"
      using float_of_rat_cases [of "of_int (width s * height s)"] by (auto simp: float_of_int_def)
    then show ?thesis using Inl by (simp add: score_def bind_e_def)
  next
    case (Inr v)
    have eq: "score s =
        (if {r1, r2} \<inter> screen_ratios = {}
         then bind_e (float_of_rat (min r1 r2))
                (\<lambda>m. Inr (float_mul v (float_mul m (Double False (1 / 2)))))
         else Inr v)"
      unfolding score_def Inr f1 f2 r1 r2 bind_e_def sum.case ..
    show ?thesis
    proof (cases "{r1, r2} \<inter> screen_ratios = {}")
      case True
      with eq have "score s = bind_e (float_of_rat (min r1 r2))
          (\<lambda>m. Inr (float_mul v (float_mul m (Double False (1 / 2)))))"
        by (simp only: if_True simp_thms)
      then show ?thesis
        using float_of_rat_cases [of "min r1 r2"] by (auto simp: bind_e_def)
    next
      case False
      with eq have "score s = Inr v" by (simp only: if_False simp_thms)
      then show ?thesis by blast
    qed
  qed
qed

text \<open>No score is not a number, so that the scores are ordered.\<close>

lemma score_not_NaN: "score s \<noteq> Inr NaN"
proof
  assume a: "score s = Inr NaN"
  obtain v where v: "float_of_int (width s * height s) = Inr v"
    using a by (cases "float_of_int (width s * height s)") (simp_all add: score_def bind_e_def)
  then obtain a0 where v': "v = Double (of_int (width s * height s) < (0::rat)) a0"
    unfolding float_of_int_def by (auto dest: float_of_rat_Double)
  show False
    using a v'
    by (auto simp: score_def v bind_e_def float_mul_half float_mul_Double
        simp del: float_mul.simps split: sum.splits if_splits dest!: float_of_rat_Double)
qed

subsection \<open>The rounding error of a score\<close>

lemma round_double_rel:
  assumes "2 powi (- 1022) \<le> q"
  shows "q * (1 - 1 / 2 ^ 53) \<le> round_double q" "round_double q \<le> q * (1 + 1 / 2 ^ 53)"
proof -
  define e where "e = q / 2 ^ 53"
  from round_double_error [OF assms] have "\<bar>round_double q - q\<bar> \<le> e" by (simp only: e_def)
  then have "round_double q - q \<le> e" "- (round_double q - q) \<le> e"
    by (rule abs_le_D1, rule abs_le_D2)
  moreover have "q * (1 - 1 / 2 ^ 53) = q - e" "q * (1 + 1 / 2 ^ 53) = q + e"
    by (simp_all add: e_def algebra_simps)
  ultimately show "q * (1 - 1 / 2 ^ 53) \<le> round_double q" "round_double q \<le> q * (1 + 1 / 2 ^ 53)"
    by linarith+
qed

lemma limited_ge:
  assumes "0 < r" "snd (quotient_of r) \<le> 64"
  shows "1 / 64 \<le> r"
proof -
  obtain p q where pq: "quotient_of r = (p, q)" by (cases "quotient_of r")
  then have q: "0 < q" by (rule quotient_of_denom_pos)
  have r: "r = of_int p / of_int q" using pq by (rule quotient_of_div)
  have "0 < p" using assms(1) q unfolding r by (simp add: zero_less_divide_iff)
  then have p: "(1::rat) \<le> of_int p" by simp
  have q64: "(of_int q :: rat) \<le> 64" using assms(2) pq by simp
  have "(1::rat) / 64 \<le> 1 / of_int q" using q q64 by (intro divide_left_mono) simp_all
  also have "\<dots> \<le> of_int p / of_int q" using p q by (intro divide_right_mono) simp_all
  finally show ?thesis unfolding r .
qed

text \<open>
  A score is rounded three times: the ratio, its half, and the product with the area.
\<close>

lemma score_error:
  assumes A: "1 \<le> A" and r: "1 / 64 \<le> r"
  defines "sc \<equiv> round_double (A * round_double (round_double r * (1 / 2)))"
  shows "\<bar>sc - A * (r * (1 / 2))\<bar> \<le> A * (r * (1 / 2)) / 2 ^ 51"
proof -
  define u :: rat where "u = 1 / 2 ^ 53"
  define m where "m = round_double r"
  define y where "y = round_double (m * (1 / 2))"
  have u: "0 < u" "u < 1 / 2" by (simp_all add: u_def)
  have small: "(2::rat) powi (- 1022) \<le> 1 / 2048" by (simp add: power_int_minus_divide)
  have r0: "0 < r" using r by simp
  have rn: "2 powi (- 1022) \<le> r" using r small by linarith
  have m: "r * (1 - u) \<le> m" "m \<le> r * (1 + u)"
    unfolding m_def u_def by (rule round_double_rel [OF rn])+
  have "r * (1 / 2) \<le> r * (1 - u)" using r0 u by (intro mult_left_mono) simp_all
  moreover have "1 / 128 \<le> r * (1 / 2)" using r by simp
  ultimately have mlo: "1 / 128 \<le> m" using m(1) by linarith
  have "1 / 256 \<le> m * (1 / 2)" using mlo by simp
  then have yn: "2 powi (- 1022) \<le> m * (1 / 2)" using small by linarith
  have y: "m * (1 / 2) * (1 - u) \<le> y" "y \<le> m * (1 / 2) * (1 + u)"
    unfolding y_def u_def by (rule round_double_rel [OF yn])+
  have "m * (1 / 2) * (1 / 2) \<le> m * (1 / 2) * (1 - u)" using mlo u by (intro mult_left_mono) simp_all
  moreover have "1 / 512 \<le> m * (1 / 2) * (1 / 2)" using mlo by simp
  ultimately have ylo: "1 / 512 \<le> y" using y(1) by linarith
  have "1 * y \<le> A * y" using A ylo by (intro mult_right_mono) simp_all
  then have "y \<le> A * y" by (simp only: mult_1)
  then have sn: "2 powi (- 1022) \<le> A * y" using ylo small by linarith
  have s: "A * y * (1 - u) \<le> sc" "sc \<le> A * y * (1 + u)"
    unfolding sc_def y_def [symmetric] m_def [symmetric] u_def by (rule round_double_rel [OF sn])+
  define E where "E = A * (r * (1 / 2))"
  have E0: "0 \<le> E" unfolding E_def using A r0 by simp
  have A0: "0 \<le> A" using A by simp
  have "y \<le> r * (1 + u) * (1 / 2) * (1 + u)"
  proof -
    have "m * (1 / 2) * (1 + u) \<le> r * (1 + u) * (1 / 2) * (1 + u)"
      using m(2) u by (intro mult_right_mono) simp_all
    with y(2) show ?thesis by simp
  qed
  then have "A * y \<le> A * (r * (1 + u) * (1 / 2) * (1 + u))" using A0 by (rule mult_left_mono)
  then have "A * y * (1 + u) \<le> A * (r * (1 + u) * (1 / 2) * (1 + u)) * (1 + u)"
    using u by (intro mult_right_mono) simp_all
  with s(2) have "sc \<le> A * (r * (1 + u) * (1 / 2) * (1 + u)) * (1 + u)" by simp
  also have "\<dots> = E * ((1 + u) * (1 + u) * (1 + u))" by (simp only: E_def mult_ac)
  also have "\<dots> \<le> E * (1 + 1 / 2 ^ 51)"
    using E0 by (intro mult_left_mono) (simp_all add: u_def)
  finally have hi: "sc \<le> E * (1 + 1 / 2 ^ 51)" .
  have "r * (1 - u) * (1 / 2) * (1 - u) \<le> y"
  proof -
    have "r * (1 - u) * (1 / 2) * (1 - u) \<le> m * (1 / 2) * (1 - u)"
      using m(1) u by (intro mult_right_mono) simp_all
    with y(1) show ?thesis by simp
  qed
  then have "A * (r * (1 - u) * (1 / 2) * (1 - u)) \<le> A * y" using A0 by (rule mult_left_mono)
  then have "A * (r * (1 - u) * (1 / 2) * (1 - u)) * (1 - u) \<le> A * y * (1 - u)"
    using u by (intro mult_right_mono) simp_all
  with s(1) have "A * (r * (1 - u) * (1 / 2) * (1 - u)) * (1 - u) \<le> sc" by simp
  moreover have "A * (r * (1 - u) * (1 / 2) * (1 - u)) * (1 - u) = E * ((1 - u) * (1 - u) * (1 - u))"
    by (simp only: E_def mult_ac)
  moreover have "E * (1 - 1 / 2 ^ 51) \<le> E * ((1 - u) * (1 - u) * (1 - u))"
    using E0 by (intro mult_left_mono) (simp_all add: u_def)
  ultimately have lo: "E * (1 - 1 / 2 ^ 51) \<le> sc" by linarith
  define d where "d = E / 2 ^ 51"
  have "E * (1 + 1 / 2 ^ 51) = E + d" "E * (1 - 1 / 2 ^ 51) = E - d"
    by (simp_all add: d_def algebra_simps)
  with hi lo have "sc - E \<le> d" "- (sc - E) \<le> d" by linarith+
  then have "\<bar>sc - E\<bar> \<le> d" by (rule abs_leI)
  then show ?thesis by (simp only: E_def d_def)
qed

text \<open>For an area up to \<open>2 ^ 53\<close> and a ratio up to \<open>2 ^ 60\<close> the products are finite.\<close>

lemma score_product:
  assumes "0 \<le> A" "A \<le> 2 ^ 53" "0 \<le> r" "r \<le> 2 ^ 60"
  shows "float_mul (Double False A) (float_mul (Double False (round_double r)) (Double False (1 / 2))) =
    Double False (round_double (A * round_double (round_double r * (1 / 2))))"
proof -
  define m where "m = round_double r"
  define y where "y = round_double (m * (1 / 2))"
  have m0: "0 \<le> m" unfolding m_def using assms(3) by (rule round_double_nonneg)
  have "r \<le> 2 powi 60" using assms(4) by simp
  then have "m \<le> 2 powi 60" unfolding m_def using assms(3) by (intro round_double_le) simp_all
  then have m60: "m \<le> 2 ^ 60" by simp
  then have "m < 2 ^ 1024" by simp
  with m0 have inner: "float_mul (Double False m) (Double False (1 / 2)) = Double False y"
    unfolding y_def by (rule float_mul_half)
  have h0: "0 \<le> m * (1 / 2)" using m0 by simp
  have y0: "0 \<le> y" unfolding y_def using h0 by (rule round_double_nonneg)
  have "m * (1 / 2) \<le> 2 powi 59" using m60 by simp
  then have "y \<le> 2 powi 59" unfolding y_def using h0 by (intro round_double_le) simp_all
  then have y59: "y \<le> 2 ^ 59" by simp
  have "A * y \<le> 2 ^ 53 * 2 ^ 59" using assms(1,2) y0 y59 by (intro mult_mono) simp_all
  then have "A * y \<le> 2 powi 112" by simp
  moreover have "0 \<le> A * y" using assms(1) y0 by simp
  ultimately have "round_double (A * y) \<le> 2 powi 112" by (intro round_double_le) simp_all
  then have "round_double (A * y) < 2 ^ 1024" by simp
  then have "float_mul (Double False A) (Double False y) = Double False (round_double (A * y))"
    by (simp add: overflows_def Let_def)
  then show ?thesis unfolding m_def [symmetric] inner y_def [symmetric] .
qed

section \<open>Arrays\<close>

lemma is_array_length: "is_array h w m \<Longrightarrow> length m = h"
  by (simp add: is_array_def)

lemma is_array_row: "is_array h w m \<Longrightarrow> i < h \<Longrightarrow> length (m ! i) = w"
  by (simp add: is_array_def list_all_length)

lemma is_arrayI:
  assumes "length m = h" "\<And>i. i < h \<Longrightarrow> length (m ! i) = w"
  shows "is_array h w m"
  using assms by (simp add: is_array_def list_all_length)

lemma array_eqI:
  assumes "is_array h w m" "is_array h w m'"
    and "\<And>i j. i < h \<Longrightarrow> j < w \<Longrightarrow> m ! i ! j = m' ! i ! j"
  shows "m = m'"
proof (rule nth_equalityI)
  show "length m = length m'"
    using assms(1,2) by (simp add: is_array_def)
next
  fix i assume "i < length m"
  then have i: "i < h" using assms(1) by (simp add: is_array_def)
  show "m ! i = m' ! i"
  proof (rule nth_equalityI)
    show "length (m ! i) = length (m' ! i)"
      using i assms(1,2) by (simp add: is_array_row)
  next
    fix j assume "j < length (m ! i)"
    then have "j < w" using i assms(1) by (simp add: is_array_row)
    then show "m ! i ! j = m' ! i ! j" using i by (rule assms(3) [rotated])
  qed
qed

subsection \<open>The four views\<close>

lemma mask_a_array:
  assumes "is_array (Suc h) (Suc w) msk"
  shows "is_array h w (mask_a msk)"
  using assms
  by (intro is_arrayI) (simp_all add: mask_a_def is_array_def list_all_length nth_tl)

lemma mask_a_nth:
  assumes "is_array (Suc h) (Suc w) msk" "i < h" "j < w"
  shows "mask_a msk ! i ! j = msk ! Suc i ! Suc j"
  using assms by (simp add: mask_a_def is_array_def list_all_length nth_tl)

lemma mask_b_array:
  assumes "is_array (Suc h) (Suc w) msk"
  shows "is_array h w (mask_b msk)"
  using assms
  by (intro is_arrayI) (simp_all add: mask_b_def is_array_def list_all_length nth_tl)

lemma mask_b_nth:
  assumes "is_array (Suc h) (Suc w) msk" "i < h" "j < w"
  shows "mask_b msk ! i ! j = msk ! Suc i ! j"
  using assms by (simp add: mask_b_def is_array_def list_all_length nth_tl nth_butlast)

lemma mask_c_array:
  assumes "is_array (Suc h) (Suc w) msk"
  shows "is_array h w (mask_c msk)"
  using assms
  by (intro is_arrayI) (simp_all add: mask_c_def is_array_def list_all_length nth_butlast)

lemma mask_c_nth:
  assumes "is_array (Suc h) (Suc w) msk" "i < h" "j < w"
  shows "mask_c msk ! i ! j = msk ! i ! Suc j"
  using assms by (simp add: mask_c_def is_array_def list_all_length nth_tl nth_butlast)

lemma mask_d_array:
  assumes "is_array (Suc h) (Suc w) msk"
  shows "is_array h w (mask_d msk)"
  using assms
  by (intro is_arrayI) (simp_all add: mask_d_def is_array_def list_all_length nth_butlast)

lemma mask_d_nth:
  assumes "is_array (Suc h) (Suc w) msk" "i < h" "j < w"
  shows "mask_d msk ! i ! j = msk ! i ! j"
  using assms by (simp add: mask_d_def is_array_def list_all_length nth_butlast)

subsection \<open>Element-wise operations\<close>

lemma arr_sub_array:
  assumes "is_array h w p" "is_array h w q"
  shows "is_array h w (arr_sub p q)"
  using assms by (intro is_arrayI) (simp_all add: arr_sub_def is_array_def list_all_length)

lemma arr_sub_nth:
  assumes "is_array h w p" "is_array h w q" "i < h" "j < w"
  shows "arr_sub p q ! i ! j = p ! i ! j - q ! i ! j"
  using assms by (simp add: arr_sub_def is_array_def list_all_length)

lemma arr_and_array:
  assumes "is_array h w p" "is_array h w q"
  shows "is_array h w (arr_and p q)"
  using assms by (intro is_arrayI) (simp_all add: arr_and_def is_array_def list_all_length)

lemma arr_and_nth:
  assumes "is_array h w p" "is_array h w q" "i < h" "j < w"
  shows "arr_and p q ! i ! j = p ! i ! j AND q ! i ! j"
  using assms by (simp add: arr_and_def is_array_def list_all_length)

lemma arr_eq_array:
  assumes "is_array h w p"
  shows "is_array h w (arr_eq p c)"
  using assms by (intro is_arrayI) (simp_all add: arr_eq_def is_array_def list_all_length)

lemma arr_eq_nth:
  assumes "is_array h w p" "i < h" "j < w"
  shows "arr_eq p c ! i ! j \<longleftrightarrow> p ! i ! j = c"
  using assms by (simp add: arr_eq_def is_array_def list_all_length)

subsection \<open>\<^verbatim>\<open>argwhere\<close>\<close>

lemma set_argwhere:
  assumes "is_array h w p"
  shows "set (argwhere p) = {(i, j). i < h \<and> j < w \<and> p ! i ! j}"
  using assms by (auto simp: argwhere_def is_array_def list_all_length)

lemma distinct_concat_pairs:
  assumes "distinct ks" "\<And>i. i \<in> set ks \<Longrightarrow> distinct (f i)"
  shows "distinct (concat (map (\<lambda>i. map (\<lambda>j. (i, j)) (f i)) ks))"
  using assms by (induction ks) (auto simp: distinct_map inj_on_def)

lemma distinct_argwhere: "distinct (argwhere p)"
  unfolding argwhere_def by (rule distinct_concat_pairs) simp_all

lemma singleton_list:
  assumes "distinct ks" "set ks = {k}"
  shows "ks = [k]"
proof (cases ks)
  case Nil
  with assms show ?thesis by simp
next
  case (Cons a rest)
  with assms have "a = k" by auto
  moreover have "rest = []"
  proof (cases rest)
    case Nil
    then show ?thesis .
  next
    case (Cons b rest')
    with assms \<open>ks = a # rest\<close> \<open>a = k\<close> show ?thesis by auto
  qed
  ultimately show ?thesis using Cons by simp
qed

subsection \<open>The corner arrays\<close>

lemma top_left_array:
  assumes "is_array (Suc h) (Suc w) msk"
  shows "is_array h w (top_left msk)"
  unfolding top_left_def
  by (intro arr_eq_array arr_and_array arr_sub_array mask_a_array mask_b_array mask_c_array assms)

lemma top_left_nth:
  assumes "is_array (Suc h) (Suc w) msk" "i < h" "j < w"
  shows "top_left msk ! i ! j \<longleftrightarrow>
    msk ! Suc i ! j - msk ! Suc i ! Suc j = - 1 \<and> msk ! i ! Suc j - msk ! Suc i ! Suc j = - 1"
proof -
  have p: "is_array h w (mask_b msk)" and q: "is_array h w (mask_a msk)"
    and r: "is_array h w (mask_c msk)"
    by (intro mask_a_array mask_b_array mask_c_array mask_d_array assms(1))+
  have pq: "is_array h w (arr_sub (mask_b msk) (mask_a msk))"
    and rq: "is_array h w (arr_sub (mask_c msk) (mask_a msk))"
    by (intro arr_sub_array p q r)+
  have "top_left msk ! i ! j \<longleftrightarrow>
      (mask_b msk ! i ! j - mask_a msk ! i ! j) AND (mask_c msk ! i ! j - mask_a msk ! i ! j) = - 1"
    unfolding top_left_def
    by (simp only: arr_eq_nth [OF arr_and_array [OF pq rq] assms(2,3)]
        arr_and_nth [OF pq rq assms(2,3)] arr_sub_nth [OF p q assms(2,3)]
        arr_sub_nth [OF r q assms(2,3)])
  then show ?thesis
    by (simp only: and_eq_minus_1_iff mask_a_nth [OF assms] mask_b_nth [OF assms]
        mask_c_nth [OF assms] mask_d_nth [OF assms])
qed

lemma top_right_array:
  assumes "is_array (Suc h) (Suc w) msk"
  shows "is_array h w (top_right msk)"
  unfolding top_right_def
  by (intro arr_eq_array arr_and_array arr_sub_array mask_a_array mask_b_array mask_d_array assms)

lemma top_right_nth:
  assumes "is_array (Suc h) (Suc w) msk" "i < h" "j < w"
  shows "top_right msk ! i ! j \<longleftrightarrow>
    msk ! Suc i ! Suc j - msk ! Suc i ! j = - 1 \<and> msk ! i ! j - msk ! Suc i ! j = - 1"
proof -
  have p: "is_array h w (mask_a msk)" and q: "is_array h w (mask_b msk)"
    and r: "is_array h w (mask_d msk)"
    by (intro mask_a_array mask_b_array mask_c_array mask_d_array assms(1))+
  have pq: "is_array h w (arr_sub (mask_a msk) (mask_b msk))"
    and rq: "is_array h w (arr_sub (mask_d msk) (mask_b msk))"
    by (intro arr_sub_array p q r)+
  have "top_right msk ! i ! j \<longleftrightarrow>
      (mask_a msk ! i ! j - mask_b msk ! i ! j) AND (mask_d msk ! i ! j - mask_b msk ! i ! j) = - 1"
    unfolding top_right_def
    by (simp only: arr_eq_nth [OF arr_and_array [OF pq rq] assms(2,3)]
        arr_and_nth [OF pq rq assms(2,3)] arr_sub_nth [OF p q assms(2,3)]
        arr_sub_nth [OF r q assms(2,3)])
  then show ?thesis
    by (simp only: and_eq_minus_1_iff mask_a_nth [OF assms] mask_b_nth [OF assms]
        mask_c_nth [OF assms] mask_d_nth [OF assms])
qed

lemma bottom_left_array:
  assumes "is_array (Suc h) (Suc w) msk"
  shows "is_array h w (bottom_left msk)"
  unfolding bottom_left_def
  by (intro arr_eq_array arr_and_array arr_sub_array mask_a_array mask_c_array mask_d_array assms)

lemma bottom_left_nth:
  assumes "is_array (Suc h) (Suc w) msk" "i < h" "j < w"
  shows "bottom_left msk ! i ! j \<longleftrightarrow>
    msk ! i ! j - msk ! i ! Suc j = - 1 \<and> msk ! Suc i ! Suc j - msk ! i ! Suc j = - 1"
proof -
  have p: "is_array h w (mask_d msk)" and q: "is_array h w (mask_c msk)"
    and r: "is_array h w (mask_a msk)"
    by (intro mask_a_array mask_b_array mask_c_array mask_d_array assms(1))+
  have pq: "is_array h w (arr_sub (mask_d msk) (mask_c msk))"
    and rq: "is_array h w (arr_sub (mask_a msk) (mask_c msk))"
    by (intro arr_sub_array p q r)+
  have "bottom_left msk ! i ! j \<longleftrightarrow>
      (mask_d msk ! i ! j - mask_c msk ! i ! j) AND (mask_a msk ! i ! j - mask_c msk ! i ! j) = - 1"
    unfolding bottom_left_def
    by (simp only: arr_eq_nth [OF arr_and_array [OF pq rq] assms(2,3)]
        arr_and_nth [OF pq rq assms(2,3)] arr_sub_nth [OF p q assms(2,3)]
        arr_sub_nth [OF r q assms(2,3)])
  then show ?thesis
    by (simp only: and_eq_minus_1_iff mask_a_nth [OF assms] mask_b_nth [OF assms]
        mask_c_nth [OF assms] mask_d_nth [OF assms])
qed

lemma bottom_right_array:
  assumes "is_array (Suc h) (Suc w) msk"
  shows "is_array h w (bottom_right msk)"
  unfolding bottom_right_def
  by (intro arr_eq_array arr_and_array arr_sub_array mask_b_array mask_c_array mask_d_array assms)

lemma bottom_right_nth:
  assumes "is_array (Suc h) (Suc w) msk" "i < h" "j < w"
  shows "bottom_right msk ! i ! j \<longleftrightarrow>
    msk ! i ! Suc j - msk ! i ! j = - 1 \<and> msk ! Suc i ! j - msk ! i ! j = - 1"
proof -
  have p: "is_array h w (mask_c msk)" and q: "is_array h w (mask_d msk)"
    and r: "is_array h w (mask_b msk)"
    by (intro mask_a_array mask_b_array mask_c_array mask_d_array assms(1))+
  have pq: "is_array h w (arr_sub (mask_c msk) (mask_d msk))"
    and rq: "is_array h w (arr_sub (mask_b msk) (mask_d msk))"
    by (intro arr_sub_array p q r)+
  have "bottom_right msk ! i ! j \<longleftrightarrow>
      (mask_c msk ! i ! j - mask_d msk ! i ! j) AND (mask_b msk ! i ! j - mask_d msk ! i ! j) = - 1"
    unfolding bottom_right_def
    by (simp only: arr_eq_nth [OF arr_and_array [OF pq rq] assms(2,3)]
        arr_and_nth [OF pq rq assms(2,3)] arr_sub_nth [OF p q assms(2,3)]
        arr_sub_nth [OF r q assms(2,3)])
  then show ?thesis
    by (simp only: and_eq_minus_1_iff mask_a_nth [OF assms] mask_b_nth [OF assms]
        mask_c_nth [OF assms] mask_d_nth [OF assms])
qed

subsection \<open>Slices\<close>

lemma slice_bound_int [simp]: "slice_bound n (int k) = min n k"
  by (simp add: slice_bound_def)

lemma length_py_slice_update [simp]: "length (py_slice_update lo hi f ks) = length ks"
  by (simp add: py_slice_update_def Let_def)

lemma slice_bound_le: "slice_bound n k \<le> n"
  by (auto simp: slice_bound_def)

lemma py_slice_update_nth_bound:
  assumes "i < length ks"
  shows "py_slice_update lo hi f ks ! i =
    (if slice_bound (length ks) lo \<le> i \<and> i < slice_bound (length ks) hi then f (ks ! i) else ks ! i)"
proof -
  define n where "n = length ks"
  define a where "a = slice_bound n lo"
  define b where "b = slice_bound n hi"
  have upd: "py_slice_update lo hi f ks =
      take a ks @ map f (take (b - a) (drop a ks)) @ drop (a + (b - a)) ks"
    by (simp add: py_slice_update_def Let_def a_def b_def n_def)
  have i: "i < n" using assms by (simp add: n_def)
  have an: "a \<le> n" and bn: "b \<le> n"
    by (simp_all add: a_def b_def slice_bound_le)
  have la: "length (take a ks) = a" using an by (simp add: n_def)
  have lm: "length (map f (take (b - a) (drop a ks))) = b - a"
    using an bn by (simp add: n_def)
  consider "i < a" | "a \<le> i" "i < b" | "a \<le> i" "b \<le> i" by linarith
  then have "py_slice_update lo hi f ks ! i = (if a \<le> i \<and> i < b then f (ks ! i) else ks ! i)"
  proof cases
    case 1
    then show ?thesis unfolding upd using i by (simp add: nth_append la n_def)
  next
    case 2
    then have "i - a < b - a" by linarith
    then show ?thesis unfolding upd using 2 i an bn by (simp add: nth_append la lm n_def)
  next
    case 3
    then have "\<not> i - a < b - a" by linarith
    moreover have "a + (b - a) + (i - a - (b - a)) = i" using 3 by linarith
    ultimately show ?thesis unfolding upd using 3 i an bn
      by (simp add: nth_append la lm n_def del: length_map length_take)
  qed
  then show ?thesis by (simp only: a_def b_def n_def)
qed

lemma py_slice_update_nth:
  assumes "i < length ks"
  shows "py_slice_update (int a) (int b) f ks ! i = (if a \<le> i \<and> i < b then f (ks ! i) else ks ! i)"
  using assms by (auto simp: py_slice_update_nth_bound)

lemma list_all_py_slice:
  assumes "a \<le> b" "b \<le> length ks"
  shows "list_all P (py_slice (int a) (int b) ks) \<longleftrightarrow> (\<forall>i. a \<le> i \<and> i < b \<longrightarrow> P (ks ! i))"
proof -
  have sl: "py_slice (int a) (int b) ks = take (b - a) (drop a ks)"
    using assms by (simp add: py_slice_def Let_def min_def)
  have "list_all P (take (b - a) (drop a ks)) \<longleftrightarrow> (\<forall>i<b - a. P (ks ! (a + i)))"
    using assms by (simp add: list_all_length)
  also have "\<dots> \<longleftrightarrow> (\<forall>i. a \<le> i \<and> i < b \<longrightarrow> P (ks ! i))"
  proof (intro iffI allI impI)
    fix i assume h: "\<forall>i<b - a. P (ks ! (a + i))" and i: "a \<le> i \<and> i < b"
    then have "i - a < b - a" by linarith
    with h have "P (ks ! (a + (i - a)))" by blast
    then show "P (ks ! i)" using i by simp
  next
    fix i assume h: "\<forall>i. a \<le> i \<and> i < b \<longrightarrow> P (ks ! i)" and i: "i < b - a"
    then have "a \<le> a + i \<and> a + i < b" by linarith
    with h show "P (ks ! (a + i))" by blast
  qed
  finally show ?thesis by (simp only: sl)
qed

lemma py_slice_nth:
  assumes "a \<le> b" "b \<le> length ks" "i < b - a"
  shows "py_slice (int a) (int b) ks ! i = ks ! (a + i)" "length (py_slice (int a) (int b) ks) = b - a"
  using assms by (auto simp add: py_slice_def Let_def min_def)

lemma np_all_crop:
  assumes "is_array h w m" "u0 \<le> u1" "u1 \<le> w" "v0 \<le> v1" "v1 \<le> h"
  shows "np_all (crop (screen_of u0 v0 u1 v1) m) \<longleftrightarrow>
    (\<forall>i j. v0 \<le> i \<and> i < v1 \<and> u0 \<le> j \<and> j < u1 \<longrightarrow> m ! i ! j \<noteq> 0)"
proof -
  have len: "length m = h" using assms(1) by (rule is_array_length)
  have "np_all (crop (screen_of u0 v0 u1 v1) m) \<longleftrightarrow>
      list_all (\<lambda>r. list_all (\<lambda>e. e \<noteq> 0) (py_slice (int u0) (int u1) r)) (py_slice (int v0) (int v1) m)"
    by (simp add: np_all_def crop_def slices_def screen_of_def list_all_iff)
  also have "\<dots> \<longleftrightarrow> (\<forall>i. v0 \<le> i \<and> i < v1 \<longrightarrow> list_all (\<lambda>e. e \<noteq> 0) (py_slice (int u0) (int u1) (m ! i)))"
    using assms(4,5) len by (simp add: list_all_py_slice)
  also have "\<dots> \<longleftrightarrow> (\<forall>i. v0 \<le> i \<and> i < v1 \<longrightarrow> (\<forall>j. u0 \<le> j \<and> j < u1 \<longrightarrow> m ! i ! j \<noteq> 0))"
  proof (intro all_cong1 imp_cong refl)
    fix i assume "v0 \<le> i \<and> i < v1"
    then have "length (m ! i) = w" using assms(1,5) by (simp add: is_array_row)
    then show "list_all (\<lambda>e. e \<noteq> 0) (py_slice (int u0) (int u1) (m ! i)) \<longleftrightarrow>
        (\<forall>j. u0 \<le> j \<and> j < u1 \<longrightarrow> m ! i ! j \<noteq> 0)"
      using assms(2,3) by (simp add: list_all_py_slice)
  qed
  finally show ?thesis by blast
qed

lemma clear_array:
  assumes "is_array h w m"
  shows "is_array h w (clear s m)"
proof (rule is_arrayI)
  show "length (clear s m) = h"
    using assms by (simp add: clear_def slices_def is_array_length)
next
  fix i assume i: "i < h"
  then have "i < length m" using assms by (simp add: is_array_length)
  then show "length (clear s m ! i) = w"
    using assms i by (simp add: clear_def slices_def py_slice_update_nth_bound is_array_row)
qed

lemma clear_nth:
  assumes "is_array h w m" "i < h" "j < w"
  shows "clear (screen_of u0 v0 u1 v1) m ! i ! j =
    (if v0 \<le> i \<and> i < v1 \<and> u0 \<le> j \<and> j < u1 then 0 else m ! i ! j)"
proof -
  have i: "i < length m" using assms by (simp add: is_array_length)
  have j: "j < length (m ! i)" using assms by (simp add: is_array_row)
  have eq: "int u0 + (int u1 - int u0) = int u1" "int v0 + (int v1 - int v0) = int v1"
    by simp_all
  show ?thesis
    unfolding clear_def slices_def screen_of_def Screen.simps eq prod.case
    using i j by (simp add: py_slice_update_nth)
qed

subsection \<open>Writing through the view\<close>

lemma assign_mask_a_array:
  assumes "is_array (Suc h) (Suc w) msk" "is_array h w m"
  shows "is_array (Suc h) (Suc w) (assign_mask_a msk m)"
proof (rule is_arrayI)
  show "length (assign_mask_a msk m) = Suc h"
    using assms by (simp add: assign_mask_a_def is_array_length)
next
  fix i assume "i < Suc h"
  then show "length (assign_mask_a msk m ! i) = Suc w"
    using assms
    by (cases i; cases msk) (auto simp: assign_mask_a_def is_array_def list_all_length)
qed

lemma assign_mask_a_nth:
  assumes "is_array (Suc h) (Suc w) msk" "is_array h w m"
  shows "assign_mask_a msk m ! 0 = msk ! 0"
    and "i < h \<Longrightarrow> assign_mask_a msk m ! Suc i ! 0 = msk ! Suc i ! 0"
    and "i < h \<Longrightarrow> j < w \<Longrightarrow> assign_mask_a msk m ! Suc i ! Suc j = m ! i ! j"
proof -
  obtain r0 rest where msk: "msk = r0 # rest"
    using assms(1) by (cases msk) (auto simp: is_array_def)
  show "assign_mask_a msk m ! 0 = msk ! 0"
    by (simp add: assign_mask_a_def msk)
  have len: "length rest = h" "length m = h"
    using assms by (simp_all add: msk is_array_def)
  {
    assume i: "i < h"
    have "length (msk ! Suc i) = Suc w"
      using assms(1) i by (simp add: is_array_row)
    then have row: "length (rest ! i) = Suc w"
      by (simp add: msk)
    then obtain c cs where ri: "rest ! i = c # cs" by (cases "rest ! i") auto
    have "assign_mask_a msk m ! Suc i = hd (rest ! i) # m ! i"
      using i len by (simp add: assign_mask_a_def msk)
    then show "assign_mask_a msk m ! Suc i ! 0 = msk ! Suc i ! 0"
      and "j < w \<Longrightarrow> assign_mask_a msk m ! Suc i ! Suc j = m ! i ! j"
      by (simp_all add: msk ri)
  }
qed

lemma mask_a_assign:
  assumes "is_array (Suc h) (Suc w) msk" "is_array h w m"
  shows "mask_a (assign_mask_a msk m) = m"
proof (rule array_eqI [OF mask_a_array [OF assign_mask_a_array [OF assms]] assms(2)])
  fix i j assume "i < h" "j < w"
  then show "mask_a (assign_mask_a msk m) ! i ! j = m ! i ! j"
    by (simp add: mask_a_nth [OF assign_mask_a_array [OF assms]] assign_mask_a_nth [OF assms])
qed

lemma count_le:
  assumes "length ks = length ls" "\<And>j. j < length ks \<Longrightarrow> P (ks ! j) \<Longrightarrow> P (ls ! j)"
  shows "length (filter P ks) \<le> length (filter P ls)"
  using assms
proof (induction ks ls rule: list_induct2)
  case Nil
  show ?case by simp
next
  case (Cons k ks l ls)
  have hd: "P k \<Longrightarrow> P l" using Cons.prems [of 0] by simp
  have "length (filter P ks) \<le> length (filter P ls)"
  proof (rule Cons.IH)
    fix j assume "j < length ks" "P (ks ! j)"
    then show "P (ls ! j)" using Cons.prems [of "Suc j"] by simp
  qed
  then show ?case using hd by auto
qed

lemma count_less:
  assumes "length ks = length ls" "\<And>j. j < length ks \<Longrightarrow> P (ks ! j) \<Longrightarrow> P (ls ! j)"
    and "n < length ks" "\<not> P (ks ! n)" "P (ls ! n)"
  shows "length (filter P ks) < length (filter P ls)"
proof -
  have ks: "ks = take n ks @ ks ! n # drop (Suc n) ks"
    using assms(3) by (simp add: id_take_nth_drop)
  have ls: "ls = take n ls @ ls ! n # drop (Suc n) ls"
    using assms(1,3) by (simp add: id_take_nth_drop)
  have a: "length (filter P (take n ks)) \<le> length (filter P (take n ls))"
    using assms(1,2,3) by (intro count_le) simp_all
  have b: "length (filter P (drop (Suc n) ks)) \<le> length (filter P (drop (Suc n) ls))"
    using assms(1,2,3) by (intro count_le) simp_all
  have "length (filter P ks) = length (filter P (take n ks)) + length (filter P (drop (Suc n) ks))"
    by (subst ks) (simp add: assms(4))
  moreover have "length (filter P ls) = length (filter P (take n ls)) + 1 + length (filter P (drop (Suc n) ls))"
    by (subst ls) (simp add: assms(5))
  ultimately show ?thesis using a b by linarith
qed

lemma sum_le:
  fixes f :: "'a \<Rightarrow> nat"
  assumes "length ks = length ls" "\<And>i. i < length ks \<Longrightarrow> f (ks ! i) \<le> f (ls ! i)"
  shows "sum_list (map f ks) \<le> sum_list (map f ls)"
  using assms
proof (induction ks ls rule: list_induct2)
  case Nil
  show ?case by simp
next
  case (Cons k ks l ls)
  have "f k \<le> f l" using Cons.prems [of 0] by simp
  moreover have "sum_list (map f ks) \<le> sum_list (map f ls)"
  proof (rule Cons.IH)
    fix i assume "i < length ks"
    then show "f (ks ! i) \<le> f (ls ! i)" using Cons.prems [of "Suc i"] by simp
  qed
  ultimately show ?case by simp
qed

lemma sum_less:
  fixes f :: "'a \<Rightarrow> nat"
  assumes "length ks = length ls" "\<And>i. i < length ks \<Longrightarrow> f (ks ! i) \<le> f (ls ! i)"
    and "n < length ks" "f (ks ! n) < f (ls ! n)"
  shows "sum_list (map f ks) < sum_list (map f ls)"
proof -
  have ks: "ks = take n ks @ ks ! n # drop (Suc n) ks"
    using assms(3) by (simp add: id_take_nth_drop)
  have ls: "ls = take n ls @ ls ! n # drop (Suc n) ls"
    using assms(1,3) by (simp add: id_take_nth_drop)
  have a: "sum_list (map f (take n ks)) \<le> sum_list (map f (take n ls))"
    using assms(1,2,3) by (intro sum_le) simp_all
  have b: "sum_list (map f (drop (Suc n) ks)) \<le> sum_list (map f (drop (Suc n) ls))"
    using assms(1,2,3) by (intro sum_le) simp_all
  have "sum_list (map f ks) = sum_list (map f (take n ks)) + f (ks ! n) + sum_list (map f (drop (Suc n) ks))"
    by (subst ks) simp
  moreover have "sum_list (map f ls) = sum_list (map f (take n ls)) + f (ls ! n) + sum_list (map f (drop (Suc n) ls))"
    by (subst ls) simp
  ultimately show ?thesis using a b assms(4) by linarith
qed

lemma filled_area_less:
  assumes m: "is_array h w m" and m': "is_array h w m'"
    and mono: "\<And>i j. i < h \<Longrightarrow> j < w \<Longrightarrow> m' ! i ! j \<noteq> 0 \<Longrightarrow> m ! i ! j \<noteq> 0"
    and cell: "i0 < h" "j0 < w" "m ! i0 ! j0 \<noteq> 0" "m' ! i0 ! j0 = 0"
  shows "filled_area m' < filled_area m"
  unfolding filled_area_def
proof (rule sum_less [where n = i0])
  show "length m' = length m" using m m' by (simp add: is_array_length)
  show "i0 < length m'" using m' cell(1) by (simp add: is_array_length)
next
  fix i assume "i < length m'"
  then have i: "i < h" using m' by (simp add: is_array_length)
  show "length (filter (\<lambda>e. e \<noteq> 0) (m' ! i)) \<le> length (filter (\<lambda>e. e \<noteq> 0) (m ! i))"
  proof (rule count_le)
    show "length (m' ! i) = length (m ! i)" using m m' i by (simp add: is_array_row)
  next
    fix j assume "j < length (m' ! i)" "m' ! i ! j \<noteq> 0"
    then show "m ! i ! j \<noteq> 0" using mono [OF i, of j] m' i by (simp add: is_array_row)
  qed
next
  show "length (filter (\<lambda>e. e \<noteq> 0) (m' ! i0)) < length (filter (\<lambda>e. e \<noteq> 0) (m ! i0))"
  proof (rule count_less [where n = j0])
    show "length (m' ! i0) = length (m ! i0)" using m m' cell(1) by (simp add: is_array_row)
    show "j0 < length (m' ! i0)" using m' cell(1,2) by (simp add: is_array_row)
    show "\<not> m' ! i0 ! j0 \<noteq> 0" using cell(4) by simp
    show "m ! i0 ! j0 \<noteq> 0" by (rule cell(3))
  next
    fix j assume "j < length (m' ! i0)" "m' ! i0 ! j \<noteq> 0"
    then show "m ! i0 ! j \<noteq> 0" using mono [OF cell(1), of j] m' cell(1) by (simp add: is_array_row)
  qed
qed

lemma corners_bounds:
  assumes "is_array (Suc h) (Suc w) msk" "(a, b, c, d) \<in> set (corners msk)"
  shows "fst a < h \<and> snd a < w \<and> fst b < h \<and> snd b < w \<and>
         fst c < h \<and> snd c < w \<and> fst d < h \<and> snd d < w"
  using assms(2)
  by (auto simp: corners_def set_argwhere [OF top_left_array [OF assms(1)]]
      set_argwhere [OF top_right_array [OF assms(1)]]
      set_argwhere [OF bottom_left_array [OF assms(1)]]
      set_argwhere [OF bottom_right_array [OF assms(1)]])

lemma rects_of_bounds:
  assumes "r \<in> set (rects_of (a, b, c, d))"
    and "fst a < h \<and> snd a < w \<and> fst b < h \<and> snd b < w \<and>
         fst c < h \<and> snd c < w \<and> fst d < h \<and> snd d < w"
  shows "\<exists>u0 v0 u1 v1. r = (int u0, int v0, int u1, int v1) \<and> u0 < u1 \<and> u1 < w \<and> v0 < v1 \<and> v1 < h"
  using assms by (auto simp: rects_of_def Let_def split: if_splits)

lemma set_set_iteration: "set (set_iteration rank added) = set added"
  by (simp add: set_iteration_def)

lemma candidates_bounds:
  assumes "is_array (Suc h) (Suc w) msk" "s \<in> set (candidates rank msk)"
  shows "\<exists>u0 v0 u1 v1. s = screen_of u0 v0 u1 v1 \<and> u0 < u1 \<and> u1 < w \<and> v0 < v1 \<and> v1 < h"
proof -
  have "s \<in> (\<lambda>(x0, y0, x1, y1). \<lparr>x = x0, y = y0, width = x1 - x0, height = y1 - y0\<rparr>) `
      set (concat (map rects_of (corners msk)))"
    using assms(2) by (simp add: candidates_def set_set_iteration)
  then obtain r where r: "r \<in> set (concat (map rects_of (corners msk)))"
    and s: "s = (case r of (x0, y0, x1, y1) \<Rightarrow> \<lparr>x = x0, y = y0, width = x1 - x0, height = y1 - y0\<rparr>)"
    by blast
  from r obtain a b c d where t: "(a, b, c, d) \<in> set (corners msk)" and rt: "r \<in> set (rects_of (a, b, c, d))"
    by auto
  from rects_of_bounds [OF rt corners_bounds [OF assms(1) t]]
  obtain u0 v0 u1 v1 where "r = (int u0, int v0, int u1, int v1)" "u0 < u1" "u1 < w" "v0 < v1" "v1 < h"
    by blast
  then show ?thesis using s by (auto simp: screen_of_def)
qed

lemma all_keys_snd:
  assumes "all_keys ss = Inr ks"
  shows "map snd ks = ss"
  using assms
proof (induction ss arbitrary: ks)
  case Nil
  then show ?case by simp
next
  case (Cons s ss)
  from Cons.prems obtain k ks' where "score s = Inr k" "all_keys ss = Inr ks'" "ks = (k, s) # ks'"
    by (auto simp: bind_e_def split: sum.splits)
  then show ?case using Cons.IH [of ks'] by simp
qed

lemma sort_by_score_set:
  assumes "sort_by_score ss = Inr ordered"
  shows "set ordered = set ss"
proof -
  from assms obtain ks where ks: "all_keys ss = Inr ks"
    and o: "ordered = map snd (sort_key (\<lambda>p. - float_value (fst p)) ks)"
    by (auto simp: sort_by_score_def bind_e_def split: sum.splits)
  have "set ordered = snd ` set ks" by (simp add: o)
  also have "\<dots> = set (map snd ks)" by simp
  finally show ?thesis by (simp only: all_keys_snd [OF ks])
qed

lemma accept_Some:
  assumes "accept rank msk = Inr (Some s)"
  shows "s \<in> set (candidates rank msk) \<and> np_all (crop s (mask_a msk))"
proof -
  from assms obtain ordered where o: "sort_by_score (candidates rank msk) = Inr ordered"
    and f: "find (\<lambda>s. np_all (crop s (mask_a msk))) ordered = Some s"
    by (auto simp: accept_def bind_e_def split: sum.splits)
  from f have "s \<in> set ordered \<and> np_all (crop s (mask_a msk))"
    by (auto simp: find_Some_iff)
  then show ?thesis by (simp add: sort_by_score_set [OF o])
qed

text \<open>One round: the accepted screen lies in the mask, is filled, and clearing it reduces the filled area.\<close>

lemma accept_step:
  assumes msk: "is_array (Suc (Suc h)) (Suc (Suc w)) msk"
    and acc: "accept rank msk = Inr (Some s)"
  shows "\<exists>u0 v0 u1 v1. s = screen_of u0 v0 u1 v1 \<and> u0 < u1 \<and> u1 \<le> w \<and> v0 < v1 \<and> v1 \<le> h \<and>
      (\<forall>i j. v0 \<le> i \<and> i < v1 \<and> u0 \<le> j \<and> j < u1 \<longrightarrow> mask_a msk ! i ! j \<noteq> 0) \<and>
      is_array (Suc (Suc h)) (Suc (Suc w)) (assign_mask_a msk (clear s (mask_a msk))) \<and>
      filled_area (assign_mask_a msk (clear s (mask_a msk))) < filled_area msk"
proof -
  from accept_Some [OF acc] have c: "s \<in> set (candidates rank msk)"
    and f: "np_all (crop s (mask_a msk))" by simp_all
  from candidates_bounds [OF msk c] obtain u0 v0 u1 v1
    where s: "s = screen_of u0 v0 u1 v1" and b: "u0 < u1" "u1 < Suc w" "v0 < v1" "v1 < Suc h"
    by blast
  have ma: "is_array (Suc h) (Suc w) (mask_a msk)" by (rule mask_a_array [OF msk])
  have filled: "\<forall>i j. v0 \<le> i \<and> i < v1 \<and> u0 \<le> j \<and> j < u1 \<longrightarrow> mask_a msk ! i ! j \<noteq> 0"
    using f b unfolding s by (subst (asm) np_all_crop [OF ma]) simp_all
  have cl: "is_array (Suc h) (Suc w) (clear s (mask_a msk))" by (rule clear_array [OF ma])
  let ?msk' = "assign_mask_a msk (clear s (mask_a msk))"
  have msk': "is_array (Suc (Suc h)) (Suc (Suc w)) ?msk'"
    by (rule assign_mask_a_array [OF msk cl])
  have cell: "?msk' ! i ! j = (if 0 < i \<and> 0 < j \<and> v0 < i \<and> i \<le> v1 \<and> u0 < j \<and> j \<le> u1 then 0 else msk ! i ! j)"
    if "i < Suc (Suc h)" "j < Suc (Suc w)" for i j
  proof (cases i)
    case 0
    then show ?thesis by (simp add: assign_mask_a_nth(1) [OF msk cl])
  next
    case (Suc i')
    show ?thesis
    proof (cases j)
      case 0
      then show ?thesis using Suc that by (simp add: assign_mask_a_nth(2) [OF msk cl])
    next
      case (Suc j')
      have ij: "i' < Suc h" "j' < Suc w" using that \<open>i = Suc i'\<close> Suc by simp_all
      have "?msk' ! Suc i' ! Suc j' = clear s (mask_a msk) ! i' ! j'"
        by (rule assign_mask_a_nth(3) [OF msk cl ij])
      also have "\<dots> = (if v0 \<le> i' \<and> i' < v1 \<and> u0 \<le> j' \<and> j' < u1 then 0 else mask_a msk ! i' ! j')"
        unfolding s by (rule clear_nth [OF ma ij])
      also have "mask_a msk ! i' ! j' = msk ! Suc i' ! Suc j'"
        by (rule mask_a_nth [OF msk ij])
      finally show ?thesis using \<open>i = Suc i'\<close> Suc by auto
    qed
  qed
  have "filled_area ?msk' < filled_area msk"
  proof (rule filled_area_less [OF msk msk', where ?i0.0 = "Suc v0" and ?j0.0 = "Suc u0"])
    fix i j assume "i < Suc (Suc h)" "j < Suc (Suc w)" "?msk' ! i ! j \<noteq> 0"
    then show "msk ! i ! j \<noteq> 0" by (simp add: cell split: if_splits)
  next
    show "Suc v0 < Suc (Suc h)" "Suc u0 < Suc (Suc w)" using b by simp_all
    have "mask_a msk ! v0 ! u0 \<noteq> 0" using filled b by simp
    then show "msk ! Suc v0 ! Suc u0 \<noteq> 0" using b by (simp add: mask_a_nth [OF msk])
    show "?msk' ! Suc v0 ! Suc u0 = 0" using b by (simp add: cell)
  qed
  then show ?thesis using s b filled msk' by (intro exI [of _ u0] exI [of _ v0] exI [of _ u1] exI [of _ v1]) simp
qed

lemma all_keys_total:
  assumes "\<And>s. s \<in> set ss \<Longrightarrow> \<exists>k. score s = Inr k"
  shows "\<exists>ks. all_keys ss = Inr ks"
  using assms
proof (induction ss)
  case Nil
  show ?case by simp
next
  case (Cons s ss)
  from Cons.prems [of s] obtain k where k: "score s = Inr k" by auto
  from Cons.IH Cons.prems obtain ks where ks: "all_keys ss = Inr ks" by auto
  show ?case by (simp add: k ks bind_e_def)
qed

text \<open>
  In a mask of fewer than \<open>2 ^ 1000\<close> cells every candidate has a score: beyond that
  the conversion of an area to a float can raise \<^verbatim>\<open>OverflowError\<close>.
\<close>

lemma accept_total:
  assumes "is_array (Suc (Suc h)) (Suc (Suc w)) msk" "w * h < 2 ^ 1000"
  shows "\<exists>res. accept rank msk = Inr res"
proof -
  have "\<exists>k. score s = Inr k" if "s \<in> set (candidates rank msk)" for s
  proof -
    from candidates_bounds [OF assms(1) that] obtain u0 v0 u1 v1 where
      s: "s = screen_of u0 v0 u1 v1" and b: "u0 < u1" "u1 < Suc w" "v0 < v1" "v1 < Suc h" by blast
    have "(int u1 - int u0) * (int v1 - int v0) \<le> int w * int h"
      using b by (intro mult_mono) simp_all
    also have "\<dots> = int (w * h)" by simp
    also have "\<dots> < int (2 ^ 1000)" using assms(2) by (simp only: of_nat_less_iff)
    finally have "(int u1 - int u0) * (int v1 - int v0) < 2 ^ 1000" by simp
    then show ?thesis using b unfolding s by (intro score_total) (simp_all add: screen_of_def)
  qed
  then obtain ks where "all_keys (candidates rank msk) = Inr ks"
    using all_keys_total by blast
  then show ?thesis by (simp add: accept_def sort_by_score_def bind_e_def)
qed

lemma all_keys_cases:
  assumes "\<And>s. s \<in> set ss \<Longrightarrow> (\<exists>k. score s = Inr k) \<or> score s = Inl OverflowError"
  shows "(\<exists>ks. all_keys ss = Inr ks) \<or> all_keys ss = Inl OverflowError"
  using assms
proof (induction ss)
  case Nil
  show ?case by simp
next
  case (Cons s ss)
  from Cons.prems [of s] have s: "(\<exists>k. score s = Inr k) \<or> score s = Inl OverflowError" by simp
  from Cons.IH Cons.prems have ss: "(\<exists>ks. all_keys ss = Inr ks) \<or> all_keys ss = Inl OverflowError"
    by simp
  from s ss show ?case by (auto simp: bind_e_def)
qed

lemma accept_cases:
  assumes "is_array (Suc h) (Suc w) msk"
  shows "(\<exists>res. accept rank msk = Inr res) \<or> accept rank msk = Inl OverflowError"
proof -
  have "(\<exists>k. score s = Inr k) \<or> score s = Inl OverflowError" if "s \<in> set (candidates rank msk)" for s
  proof -
    from candidates_bounds [OF assms that] obtain u0 v0 u1 v1 where
      "s = screen_of u0 v0 u1 v1" "u0 < u1" "v0 < v1" by blast
    then show ?thesis by (intro score_cases) (simp_all add: screen_of_def)
  qed
  then have "(\<exists>ks. all_keys (candidates rank msk) = Inr ks) \<or>
      all_keys (candidates rank msk) = Inl OverflowError"
    by (rule all_keys_cases)
  then show ?thesis by (auto simp: accept_def sort_by_score_def bind_e_def)
qed

text \<open>
  The loop ends on every mask, by induction on the filled area: with a list of screens
  or with \<^verbatim>\<open>OverflowError\<close>, and on a mask of fewer than \<open>2 ^ 1000\<close> cells with a list
  of screens.
\<close>

lemma detect_loop_ends:
  assumes "is_array (Suc (Suc h)) (Suc (Suc w)) msk"
  shows "((\<exists>ss. detect_loop rank msk screens = Some (Inr ss)) \<or>
      detect_loop rank msk screens = Some (Inl OverflowError)) \<and>
    (w * h < 2 ^ 1000 \<longrightarrow> (\<exists>ss. detect_loop rank msk screens = Some (Inr ss)))"
  using assms
proof (induction "filled_area msk" arbitrary: msk screens rule: less_induct)
  case less
  show ?case
  proof (cases "accept rank msk")
    case (Inl e)
    have "\<not> w * h < 2 ^ 1000"
      using accept_total [OF less.prems, of rank] Inl by auto
    moreover have "e = OverflowError"
      using accept_cases [OF less.prems, of rank] Inl by auto
    moreover have "detect_loop rank msk screens = Some (Inl e)"
      using Inl by (subst detect_loop.simps) simp
    ultimately show ?thesis by simp
  next
    case (Inr res)
    show ?thesis
    proof (cases res)
      case None
      with Inr have "detect_loop rank msk screens = Some (Inr screens)"
        by (subst detect_loop.simps) simp
      then show ?thesis by simp
    next
      case (Some s)
      with Inr have acc: "accept rank msk = Inr (Some s)" by simp
      from accept_step [OF less.prems acc]
      have ar: "is_array (Suc (Suc h)) (Suc (Suc w)) (assign_mask_a msk (clear s (mask_a msk)))"
        and lt: "filled_area (assign_mask_a msk (clear s (mask_a msk))) < filled_area msk"
        by blast+
      have step: "detect_loop rank msk screens =
          detect_loop rank (assign_mask_a msk (clear s (mask_a msk))) (screens @ [s])"
        using acc by (subst detect_loop.simps) simp
      show ?thesis unfolding step by (rule less.hyps [OF lt ar])
    qed
  qed
qed

lemma detect_loop_terminates:
  assumes "is_array (Suc (Suc h)) (Suc (Suc w)) msk" "w * h < 2 ^ 1000"
  shows "\<exists>ss. detect_loop rank msk screens = Some (Inr ss)"
  using detect_loop_ends [OF assms(1), of rank screens] assms(2) by blast

lemma cleared_cell:
  assumes msk: "is_array (Suc (Suc h)) (Suc (Suc w)) msk"
    and ij: "i < Suc (Suc h)" "j < Suc (Suc w)"
  shows "assign_mask_a msk (clear (screen_of u0 v0 u1 v1) (mask_a msk)) ! i ! j =
    (if v0 < i \<and> i \<le> v1 \<and> u0 < j \<and> j \<le> u1 then 0 else msk ! i ! j)"
proof -
  let ?s = "screen_of u0 v0 u1 v1"
  let ?msk' = "assign_mask_a msk (clear ?s (mask_a msk))"
  have ma: "is_array (Suc h) (Suc w) (mask_a msk)" by (rule mask_a_array [OF msk])
  have cl: "is_array (Suc h) (Suc w) (clear ?s (mask_a msk))" by (rule clear_array [OF ma])
  show ?thesis
  proof (cases i)
    case 0
    then show ?thesis by (simp add: assign_mask_a_nth(1) [OF msk cl])
  next
    case (Suc i')
    show ?thesis
    proof (cases j)
      case 0
      then show ?thesis using Suc ij by (simp add: assign_mask_a_nth(2) [OF msk cl])
    next
      case (Suc j')
      have ij': "i' < Suc h" "j' < Suc w" using ij \<open>i = Suc i'\<close> Suc by simp_all
      have "?msk' ! Suc i' ! Suc j' = clear ?s (mask_a msk) ! i' ! j'"
        by (rule assign_mask_a_nth(3) [OF msk cl ij'])
      also have "\<dots> = (if v0 \<le> i' \<and> i' < v1 \<and> u0 \<le> j' \<and> j' < u1 then 0 else mask_a msk ! i' ! j')"
        by (rule clear_nth [OF ma ij'])
      also have "mask_a msk ! i' ! j' = msk ! Suc i' ! Suc j'"
        by (rule mask_a_nth [OF msk ij'])
      finally show ?thesis using \<open>i = Suc i'\<close> Suc by auto
    qed
  qed
qed

text \<open>A working mask without a non-zero cell has no corner, so the loop stops.\<close>

lemma word8_diff_facts:
  "(0::int8) - 0 \<noteq> - 1" "(1::int8) - 1 \<noteq> - 1" "(1::int8) - 0 \<noteq> - 1" "(0::int8) - 1 = - 1"
  by simp_all

lemma accept_zero:
  assumes msk: "is_array (Suc (Suc h)) (Suc (Suc w)) msk"
    and zero: "\<And>i j. i < Suc (Suc h) \<Longrightarrow> j < Suc (Suc w) \<Longrightarrow> msk ! i ! j = 0"
  shows "accept rank msk = Inr None"
proof -
  have "set (argwhere (top_left msk)) = {}"
    unfolding set_argwhere [OF top_left_array [OF msk]]
    by (auto simp: top_left_nth [OF msk] zero)
  then have "corners msk = []"
    by (simp add: corners_def)
  then show ?thesis
    by (simp add: accept_def candidates_def set_iteration_def sort_by_score_def bind_e_def)
qed

lemma single_rect_corners:
  assumes msk: "is_array (Suc (Suc h)) (Suc (Suc w)) msk"
    and cells: "\<And>i j. i < Suc (Suc h) \<Longrightarrow> j < Suc (Suc w) \<Longrightarrow>
      msk ! i ! j = (if v0 < i \<and> i \<le> v1 \<and> u0 < j \<and> j \<le> u1 then 1 else 0)"
    and b: "u0 < u1" "u1 \<le> w" "v0 < v1" "v1 \<le> h"
  shows "argwhere (top_left msk) = [(v0, u0)]" "argwhere (top_right msk) = [(v0, u1)]"
    "argwhere (bottom_left msk) = [(v1, u0)]" "argwhere (bottom_right msk) = [(v1, u1)]"
proof -
  have "set (argwhere (top_left msk)) = {(v0, u0)}"
    unfolding set_argwhere [OF top_left_array [OF msk]]
    using b by (auto simp: top_left_nth [OF msk] cells split: if_splits)
  then show "argwhere (top_left msk) = [(v0, u0)]"
    by (rule singleton_list [OF distinct_argwhere])
  have "set (argwhere (top_right msk)) = {(v0, u1)}"
    unfolding set_argwhere [OF top_right_array [OF msk]]
    using b by (auto simp: top_right_nth [OF msk] cells split: if_splits)
  then show "argwhere (top_right msk) = [(v0, u1)]"
    by (rule singleton_list [OF distinct_argwhere])
  have "set (argwhere (bottom_left msk)) = {(v1, u0)}"
    unfolding set_argwhere [OF bottom_left_array [OF msk]]
    using b by (auto simp: bottom_left_nth [OF msk] cells split: if_splits)
  then show "argwhere (bottom_left msk) = [(v1, u0)]"
    by (rule singleton_list [OF distinct_argwhere])
  have "set (argwhere (bottom_right msk)) = {(v1, u1)}"
    unfolding set_argwhere [OF bottom_right_array [OF msk]]
    using b by (auto simp: bottom_right_nth [OF msk] cells split: if_splits)
  then show "argwhere (bottom_right msk) = [(v1, u1)]"
    by (rule singleton_list [OF distinct_argwhere])
qed

lemma single_rect_accept:
  assumes msk: "is_array (Suc (Suc h)) (Suc (Suc w)) msk"
    and cells: "\<And>i j. i < Suc (Suc h) \<Longrightarrow> j < Suc (Suc w) \<Longrightarrow>
      msk ! i ! j = (if v0 < i \<and> i \<le> v1 \<and> u0 < j \<and> j \<le> u1 then 1 else 0)"
    and b: "u0 < u1" "u1 \<le> w" "v0 < v1" "v1 \<le> h"
    and area: "(int u1 - int u0) * (int v1 - int v0) < 2 ^ 1000"
  shows "accept rank msk = Inr (Some (screen_of u0 v0 u1 v1))"
proof -
  let ?s = "screen_of u0 v0 u1 v1"
  have "corners msk = [((v0, u0), (v0, u1), (v1, u0), (v1, u1))]"
    by (simp add: corners_def single_rect_corners [OF msk cells b])
  then have cand: "candidates rank msk = [?s]"
    using b by (simp add: candidates_def rects_of_def set_iteration_def screen_of_def)
  obtain k where k: "score ?s = Inr k"
    using score_total [of ?s] b area by (auto simp: screen_of_def)
  have sorted: "sort_by_score [?s] = Inr [?s]"
    by (simp add: sort_by_score_def bind_e_def k)
  have ma: "is_array (Suc h) (Suc w) (mask_a msk)" by (rule mask_a_array [OF msk])
  have "np_all (crop ?s (mask_a msk))"
    using b by (subst np_all_crop [OF ma]) (auto simp: mask_a_nth [OF msk] cells)
  then show ?thesis
    by (simp add: accept_def cand sorted bind_e_def)
qed

lemma single_rect_loop:
  assumes msk: "is_array (Suc (Suc h)) (Suc (Suc w)) msk"
    and cells: "\<And>i j. i < Suc (Suc h) \<Longrightarrow> j < Suc (Suc w) \<Longrightarrow>
      msk ! i ! j = (if v0 < i \<and> i \<le> v1 \<and> u0 < j \<and> j \<le> u1 then 1 else 0)"
    and b: "u0 < u1" "u1 \<le> w" "v0 < v1" "v1 \<le> h"
    and area: "(int u1 - int u0) * (int v1 - int v0) < 2 ^ 1000"
  shows "detect_loop rank msk screens = Some (Inr (screens @ [screen_of u0 v0 u1 v1]))"
proof -
  let ?s = "screen_of u0 v0 u1 v1"
  let ?msk' = "assign_mask_a msk (clear ?s (mask_a msk))"
  have acc: "accept rank msk = Inr (Some ?s)"
    by (rule single_rect_accept [OF msk cells b area])
  have ma: "is_array (Suc h) (Suc w) (mask_a msk)" by (rule mask_a_array [OF msk])
  have msk': "is_array (Suc (Suc h)) (Suc (Suc w)) ?msk'"
    by (rule assign_mask_a_array [OF msk clear_array [OF ma]])
  have "accept rank ?msk' = Inr None"
  proof (rule accept_zero [OF msk'])
    fix i j assume "i < Suc (Suc h)" "j < Suc (Suc w)"
    then show "?msk' ! i ! j = 0" by (simp add: cleared_cell [OF msk] cells)
  qed
  then have "detect_loop rank ?msk' (screens @ [?s]) = Some (Inr (screens @ [?s]))"
    by (subst detect_loop.simps) simp
  then show ?thesis using acc by (subst detect_loop.simps) simp
qed

subsection \<open>The working mask of a buffer\<close>

lemma byte_div_255: "(a :: byte) div 255 = (if a = 255 then 1 else 0)"
proof (cases "a = 255")
  case True
  then show ?thesis by simp
next
  case False
  have "unat a < 2 ^ LENGTH(8)" by (rule unsigned_less)
  then have "unat a < 256" by simp
  moreover have "unat a \<noteq> 255" using False by (simp add: word_unat_eq_iff)
  ultimately have "unat a < unat (255 :: byte)" by simp
  then have "a < 255" by (simp only: word_less_nat_alt)
  then have "a div 255 = 0" by (rule div_word_less)
  then show ?thesis using False by simp
qed

lemma has_shape_array:
  assumes "has_shape h w d"
  shows "is_array h w (map (map f) d)"
  using assms by (intro is_arrayI) (simp_all add: has_shape_def list_all_length)

lemma has_shape_nth:
  assumes "has_shape h w d" "i < h" "j < w"
  shows "map (map f) d ! i ! j = f (d ! i ! j)"
  using assms by (simp add: has_shape_def list_all_length)

lemma alpha_channel_modes:
  assumes "m \<in> set video_modes"
  shows "\<exists>k<4. str_index m CHR ''a'' = Inr k \<and> alpha_channel m d = Inr (map (map (\<lambda>px. px ! k)) d)"
  using assms by (auto simp: video_modes_def str_index_def alpha_channel_def channel_def bind_e_def)

lemma np_pad_array:
  assumes "is_array h w m"
  shows "is_array (Suc (Suc h)) (Suc (Suc w)) (np_pad w m)"
proof (rule is_arrayI)
  show "length (np_pad w m) = Suc (Suc h)"
    using assms by (simp add: np_pad_def is_array_length)
next
  fix i assume "i < Suc (Suc h)"
  then show "length (np_pad w m ! i) = Suc (Suc w)"
    using assms
    by (cases i) (auto simp: np_pad_def nth_append is_array_length is_array_row)
qed

lemma np_pad_nth:
  assumes "is_array h w m" "i < Suc (Suc h)" "j < Suc (Suc w)"
  shows "np_pad w m ! i ! j = (if 0 < i \<and> i \<le> h \<and> 0 < j \<and> j \<le> w then m ! (i - 1) ! (j - 1) else 0)"
proof -
  have rep: "replicate (w + 2) (0::'a) ! j = 0"
    by (rule nth_replicate) (use assms(3) in simp)
  have len: "length m = h" using assms(1) by (rule is_array_length)
  show ?thesis
  proof (cases i)
    case 0
    have "np_pad w m ! 0 = replicate (w + 2) 0" by (simp only: np_pad_def nth_Cons_0)
    then show ?thesis using 0 rep by simp
  next
    case (Suc i')
    have tl: "np_pad w m ! Suc i' = (map (\<lambda>r. 0 # r @ [0]) m @ [replicate (w + 2) 0]) ! i'"
      by (simp only: np_pad_def nth_Cons_Suc)
    show ?thesis
    proof (cases "i' < h")
      case True
      then have row: "np_pad w m ! i = 0 # m ! i' @ [0]"
        unfolding Suc tl using len by (simp add: nth_append)
      have lr: "length (m ! i') = w" using assms True by (simp add: is_array_row)
      show ?thesis
      proof (cases j)
        case 0
        then show ?thesis by (simp add: row)
      next
        case (Suc j')
        have e: "np_pad w m ! i ! j = (m ! i' @ [0]) ! j'" by (simp add: row Suc)
        show ?thesis
        proof (cases "j' < w")
          case True
          then have "(m ! i' @ [0]) ! j' = m ! i' ! j'" by (simp add: nth_append lr)
          then show ?thesis using e True \<open>i' < h\<close> \<open>i = Suc i'\<close> Suc by simp
        next
          case False
          then have "j' = w" using assms(3) Suc by simp
          then have "(m ! i' @ [0]) ! j' = 0" by (simp add: nth_append lr)
          then show ?thesis using e False Suc by simp
        qed
      qed
    next
      case False
      then have "i' = h" using assms Suc by simp
      then have "np_pad w m ! i = replicate (w + 2) 0"
        unfolding Suc tl using len by (simp add: nth_append del: replicate_Suc)
      then show ?thesis using \<open>i' = h\<close> Suc rep by simp
    qed
  qed
qed

lemma binarize_array:
  assumes "is_array h w m"
  shows "is_array h w (binarize m)"
  using assms by (intro is_arrayI) (simp_all add: binarize_def is_array_def list_all_length)

lemma binarize_nth:
  assumes "is_array h w m" "i < h" "j < w"
  shows "binarize m ! i ! j = (if m ! i ! j = 255 then 1 else 0)"
  using assms by (simp add: binarize_def is_array_def list_all_length byte_div_255)

text \<open>The working mask \<^verbatim>\<open>detect_screens\<close> starts from.\<close>

lemma working_mask:
  assumes "has_shape h w d"
  shows "is_array (Suc (Suc h)) (Suc (Suc w)) (np_pad w (binarize (map (map (\<lambda>px. px ! k)) d)))"
    and "i < Suc (Suc h) \<Longrightarrow> j < Suc (Suc w) \<Longrightarrow>
      np_pad w (binarize (map (map (\<lambda>px. px ! k)) d)) ! i ! j =
      (if 0 < i \<and> i \<le> h \<and> 0 < j \<and> j \<le> w \<and> d ! (i - 1) ! (j - 1) ! k = 255 then 1 else 0)"
proof -
  let ?m = "map (map (\<lambda>px. px ! k)) d"
  have m: "is_array h w ?m" by (rule has_shape_array [OF assms])
  have bm: "is_array h w (binarize ?m)" by (rule binarize_array [OF m])
  show "is_array (Suc (Suc h)) (Suc (Suc w)) (np_pad w (binarize ?m))"
    by (rule np_pad_array [OF bm])
  assume ij: "i < Suc (Suc h)" "j < Suc (Suc w)"
  show "np_pad w (binarize ?m) ! i ! j =
      (if 0 < i \<and> i \<le> h \<and> 0 < j \<and> j \<le> w \<and> d ! (i - 1) ! (j - 1) ! k = 255 then 1 else 0)"
  proof (cases "0 < i \<and> i \<le> h \<and> 0 < j \<and> j \<le> w")
    case True
    then have "i - 1 < h" "j - 1 < w" by linarith+
    then show ?thesis using True
      by (simp add: np_pad_nth [OF bm ij] binarize_nth [OF m] has_shape_nth [OF assms])
  next
    case False
    then show ?thesis by (auto simp: np_pad_nth [OF bm ij])
  qed
qed

text \<open>A buffer whose marked pixels are exactly those of one rectangle.\<close>

lemma detect_single_rect:
  assumes d: "data v = Some d" and shape: "has_shape (vheight v) (vwidth v) d"
    and k: "str_index (mode v) CHR ''a'' = Inr k" "k < 4"
    and alpha: "\<And>i j. i < vheight v \<Longrightarrow> j < vwidth v \<Longrightarrow>
      d ! i ! j ! k = 255 \<longleftrightarrow> v0 \<le> i \<and> i < v1 \<and> u0 \<le> j \<and> j < u1"
    and b: "u0 < u1" "u1 \<le> vwidth v" "v0 < v1" "v1 \<le> vheight v"
    and area: "(int u1 - int u0) * (int v1 - int v0) < 2 ^ 1000"
  shows "detect_screens rank v = Some (Inr [screen_of u0 v0 u1 v1], v)"
proof -
  let ?msk = "np_pad (vwidth v) (binarize (map (map (\<lambda>px. px ! k)) d))"
  have ac: "alpha_channel (mode v) d = Inr (map (map (\<lambda>px. px ! k)) d)"
    using k by (simp add: alpha_channel_def channel_def bind_e_def)
  have "detect_loop rank ?msk [] = Some (Inr ([] @ [screen_of u0 v0 u1 v1]))"
  proof (rule single_rect_loop [OF working_mask(1) [OF shape] _ b area])
    fix i j assume ij: "i < Suc (Suc (vheight v))" "j < Suc (Suc (vwidth v))"
    show "?msk ! i ! j = (if v0 < i \<and> i \<le> v1 \<and> u0 < j \<and> j \<le> u1 then 1 else 0)"
    proof (cases "0 < i \<and> i \<le> vheight v \<and> 0 < j \<and> j \<le> vwidth v")
      case True
      then have "i - 1 < vheight v" "j - 1 < vwidth v" by linarith+
      from alpha [OF this] True show ?thesis
        unfolding working_mask(2) [OF shape ij] by auto
    next
      case False
      then show ?thesis using b ij unfolding working_mask(2) [OF shape ij] by auto
    qed
  qed
  then show ?thesis by (simp add: detect_screens_def d ac)
qed

lemma detect_unmarked:
  assumes d: "data v = Some d" and shape: "has_shape (vheight v) (vwidth v) d"
    and k: "str_index (mode v) CHR ''a'' = Inr k" "k < 4"
    and alpha: "\<And>i j. i < vheight v \<Longrightarrow> j < vwidth v \<Longrightarrow> d ! i ! j ! k \<noteq> 255"
  shows "detect_screens rank v = Some (Inr [], v)"
proof -
  let ?msk = "np_pad (vwidth v) (binarize (map (map (\<lambda>px. px ! k)) d))"
  have ac: "alpha_channel (mode v) d = Inr (map (map (\<lambda>px. px ! k)) d)"
    using k by (simp add: alpha_channel_def channel_def bind_e_def)
  have "accept rank ?msk = Inr None"
  proof (rule accept_zero [OF working_mask(1) [OF shape]])
    fix i j assume ij: "i < Suc (Suc (vheight v))" "j < Suc (Suc (vwidth v))"
    show "?msk ! i ! j = 0"
    proof (cases "0 < i \<and> i \<le> vheight v \<and> 0 < j \<and> j \<le> vwidth v")
      case True
      then have "i - 1 < vheight v" "j - 1 < vwidth v" by linarith+
      from alpha [OF this] show ?thesis
        unfolding working_mask(2) [OF shape ij] by simp
    next
      case False
      then show ?thesis unfolding working_mask(2) [OF shape ij] by auto
    qed
  qed
  then have "detect_loop rank ?msk [] = Some (Inr [])"
    by (subst detect_loop.simps) simp
  then show ?thesis by (simp add: detect_screens_def d ac)
qed

lemma detect_screens_returns:
  assumes "case data v of None \<Rightarrow> True | Some d \<Rightarrow> has_shape (vheight v) (vwidth v) d"
  shows "\<exists>r. detect_screens rank v = Some (r, v)"
    and "mode v \<in> set video_modes \<Longrightarrow>
      (\<exists>ss. detect_screens rank v = Some (Inr ss, v)) \<or>
      detect_screens rank v = Some (Inl OverflowError, v)"
    and "mode v \<in> set video_modes \<Longrightarrow> vwidth v * vheight v < 2 ^ 1000 \<Longrightarrow>
      \<exists>ss. detect_screens rank v = Some (Inr ss, v)"
proof -
  have "(\<exists>r. detect_screens rank v = Some (r, v)) \<and>
      (mode v \<in> set video_modes \<longrightarrow>
         (\<exists>ss. detect_screens rank v = Some (Inr ss, v)) \<or>
         detect_screens rank v = Some (Inl OverflowError, v)) \<and>
      (mode v \<in> set video_modes \<and> vwidth v * vheight v < 2 ^ 1000 \<longrightarrow>
         (\<exists>ss. detect_screens rank v = Some (Inr ss, v)))"
  proof (cases "data v")
    case None
    then show ?thesis by (simp add: detect_screens_def)
  next
    case (Some d)
    with assms have shape: "has_shape (vheight v) (vwidth v) d" by simp
    show ?thesis
    proof (cases "alpha_channel (mode v) d")
      case (Inl e)
      moreover have "\<not> mode v \<in> set video_modes"
        using alpha_channel_modes [of "mode v" d] Inl by auto
      ultimately show ?thesis using Some by (simp add: detect_screens_def)
    next
      case (Inr m)
      then obtain k where m: "m = map (map (\<lambda>px. px ! k)) d"
        by (auto simp: alpha_channel_def channel_def bind_e_def split: sum.splits if_splits)
      from detect_loop_ends [OF working_mask(1) [OF shape], of rank k "[]"]
      have "((\<exists>ss. detect_loop rank (np_pad (vwidth v) (binarize m)) [] = Some (Inr ss)) \<or>
          detect_loop rank (np_pad (vwidth v) (binarize m)) [] = Some (Inl OverflowError)) \<and>
        (vwidth v * vheight v < 2 ^ 1000 \<longrightarrow>
           (\<exists>ss. detect_loop rank (np_pad (vwidth v) (binarize m)) [] = Some (Inr ss)))"
        unfolding m .
      with Some Inr show ?thesis by (auto simp: detect_screens_def)
    qed
  qed
  then show "\<exists>r. detect_screens rank v = Some (r, v)"
    and "mode v \<in> set video_modes \<Longrightarrow>
      (\<exists>ss. detect_screens rank v = Some (Inr ss, v)) \<or>
      detect_screens rank v = Some (Inl OverflowError, v)"
    and "mode v \<in> set video_modes \<Longrightarrow> vwidth v * vheight v < 2 ^ 1000 \<Longrightarrow>
      \<exists>ss. detect_screens rank v = Some (Inr ss, v)"
    by blast+
qed

section \<open>The canonical channel order\<close>

lemma px4:
  assumes "length (px :: 'a list) = 4"
  obtains a b c d where "px = [a, b, c, d]"
proof -
  from assms obtain a p1 where "px = a # p1" "length p1 = 3" by (cases px) auto
  moreover then obtain b p2 where "p1 = b # p2" "length p2 = 2" by (cases p1) auto
  moreover then obtain c p3 where "p2 = c # p3" "length p3 = 1" by (cases p2) auto
  moreover then obtain d where "p3 = [d]" by (cases p3) auto
  ultimately show ?thesis using that by simp
qed

lemma px_roundtrip:
  assumes "m \<in> set video_modes" "length px = 4"
  shows "from_rgba_px m (to_rgba_px m px) = px"
proof -
  from assms(2) obtain a b c d where "px = [a, b, c, d]" by (rule px4)
  then show ?thesis using assms(1)
    by (auto simp: video_modes_def from_rgba_px_def to_rgba_px_def)
qed

lemma buffer_roundtrip:
  assumes "m \<in> set video_modes" "has_shape h w d"
  shows "map (map (from_rgba_px m)) (map (map (to_rgba_px m)) d) = d"
proof -
  have "map (from_rgba_px m \<circ> to_rgba_px m) row = row" if "row \<in> set d" for row
  proof (rule map_idI)
    fix px assume "px \<in> set row"
    then have "length px = 4" using assms(2) that by (auto simp: has_shape_def list_all_iff)
    then show "(from_rgba_px m \<circ> to_rgba_px m) px = px"
      using px_roundtrip [OF assms(1)] by simp
  qed
  then show ?thesis by (simp add: map_idI)
qed

lemma dstack4_channels:
  "dstack4 (map (map (\<lambda>px. px ! ir)) d) (map (map (\<lambda>px. px ! ig)) d)
      (map (map (\<lambda>px. px ! ib)) d) (map (map (\<lambda>px. px ! ia)) d) =
   map (map (\<lambda>px. [px ! ir, px ! ig, px ! ib, px ! ia])) d"
  by (simp add: dstack4_def zip_map_map zip_same_conv_map comp_def case_prod_beta)

lemma rev4:
  assumes "length (px :: 'a list) = 4"
  shows "rev px = [px ! 3, px ! 2, px ! 1, px ! 0]"
proof -
  from assms obtain a b c d where "px = [a, b, c, d]" by (rule px4)
  then show ?thesis by simp
qed

lemma as_rgba_Some:
  assumes "mode v \<in> set video_modes" "data v = Some d" "has_shape h w d"
  shows "as_rgba v = Inr (map (map (to_rgba_px (mode v))) d)"
proof -
  have id4: "map (map (\<lambda>px. [px ! 0, px ! 1, px ! 2, px ! 3])) d = d"
  proof -
    have "map (\<lambda>px. [px ! 0, px ! 1, px ! 2, px ! 3]) row = row" if "row \<in> set d" for row
    proof (rule map_idI)
      fix px assume "px \<in> set row"
      then have "length px = 4" using assms(3) that by (auto simp: has_shape_def list_all_iff)
      then obtain a b c e where "px = [a, b, c, e]" by (rule px4)
      then show "[px ! 0, px ! 1, px ! 2, px ! 3] = px" by simp
    qed
    then show ?thesis by (simp add: map_idI)
  qed
  have rv: "map (map rev) d = map (map (\<lambda>px. [px ! 3, px ! 2, px ! 1, px ! 0])) d"
  proof -
    have "map rev row = map (\<lambda>px. [px ! 3, px ! 2, px ! 1, px ! 0]) row" if "row \<in> set d" for row
    proof (rule map_cong [OF refl])
      fix px assume "px \<in> set row"
      then have "length px = 4" using assms(3) that by (auto simp: has_shape_def list_all_iff)
      then show "rev px = [px ! 3, px ! 2, px ! 1, px ! 0]" by (rule rev4)
    qed
    then show ?thesis by simp
  qed
  have perm:
    "to_rgba_px ''bgra'' = (\<lambda>px. [px ! 2, px ! 1, px ! 0, px ! 3])"
    "to_rgba_px ''rgba'' = (\<lambda>px. [px ! 0, px ! 1, px ! 2, px ! 3])"
    "to_rgba_px ''argb'' = (\<lambda>px. [px ! 1, px ! 2, px ! 3, px ! 0])"
    "to_rgba_px ''abgr'' = (\<lambda>px. [px ! 3, px ! 2, px ! 1, px ! 0])"
    by (rule ext, simp add: to_rgba_px_def eval_nat_numeral)+
  from assms(1) consider "mode v = ''bgra''" | "mode v = ''rgba''" | "mode v = ''argb''" | "mode v = ''abgr''"
    by (auto simp: video_modes_def)
  then show ?thesis
  proof cases
    case 1
    then show ?thesis
      by (simp add: as_rgba_def assms(2) str_index_def channel_def bind_e_def dstack4_channels perm eval_nat_numeral)
  next
    case 2
    then have "as_rgba v = Inr d" by (simp add: as_rgba_def assms(2))
    then show ?thesis by (simp only: 2 perm(2) id4)
  next
    case 3
    then show ?thesis
      by (simp add: as_rgba_def assms(2) str_index_def channel_def bind_e_def dstack4_channels perm eval_nat_numeral)
  next
    case 4
    then have "as_rgba v = Inr (map (map rev) d)" by (simp add: as_rgba_def assms(2))
    then show ?thesis by (simp only: 4 perm(4) rv)
  qed
qed

text \<open>
  C7. In each of the four modes, \<^verbatim>\<open>as_rgba\<close> of an allocated buffer of the
  negotiated shape is the buffer with every pixel permuted into the order R, G, B, A:
  channel \<open>c\<close> of the result is channel \<^verbatim>\<open>mode.index(c)\<close> of the buffer. In mode
  \<^verbatim>\<open>rgba\<close> that is the buffer itself, in mode \<^verbatim>\<open>abgr\<close> the reversal of every
  pixel. Applying the inverse permutation to the result gives the buffer back. Without a
  buffer the result is the all-zero array of shape height by width by 4.
\<close>

theorem as_rgba_permutation:
  assumes "mode v \<in> set video_modes"
  shows "(data v = None \<longrightarrow>
            as_rgba v = Inr (replicate (vheight v) (replicate (vwidth v) [0, 0, 0, 0]))) \<and>
         (\<forall>d. data v = Some d \<and> has_shape (vheight v) (vwidth v) d \<longrightarrow>
            as_rgba v = Inr (map (map (to_rgba_px (mode v))) d) \<and>
            map (map (from_rgba_px (mode v))) (map (map (to_rgba_px (mode v))) d) = d \<and>
            (mode v = ''rgba'' \<longrightarrow> as_rgba v = Inr d) \<and>
            (mode v = ''abgr'' \<longrightarrow> as_rgba v = Inr (map (map rev) d)))"
proof (intro conjI impI allI)
  assume "data v = None"
  then show "as_rgba v = Inr (replicate (vheight v) (replicate (vwidth v) [0, 0, 0, 0]))"
    by (simp add: as_rgba_def np_zeros_def)
next
  fix d assume d: "data v = Some d \<and> has_shape (vheight v) (vwidth v) d"
  show "as_rgba v = Inr (map (map (to_rgba_px (mode v))) d)"
    using as_rgba_Some [OF assms] d by blast
  show "map (map (from_rgba_px (mode v))) (map (map (to_rgba_px (mode v))) d) = d"
    using buffer_roundtrip [OF assms] d by blast
  show "as_rgba v = Inr d" if "mode v = ''rgba''"
    using that d by (simp add: as_rgba_def)
  show "as_rgba v = Inr (map (map rev) d)" if "mode v = ''abgr''"
    using that d by (simp add: as_rgba_def)
qed

text \<open>An instance: one row of two pixels in mode \<^verbatim>\<open>bgra\<close>.\<close>

theorem as_rgba_permutation_witness:
  "as_rgba \<lparr>reader = [], writer = [], decompress = (), name = [], vwidth = 2, vheight = 1,
      mode = ''bgra'', data = Some [[[1, 2, 3, 4], [5, 6, 7, 8]]]\<rparr>
     = Inr [[[3, 2, 1, 4], [7, 6, 5, 8]]] \<and>
   map (map (from_rgba_px ''bgra'')) [[[3, 2, 1, 4], [7, 6, 5, 8 :: byte]]] = [[[1, 2, 3, 4], [5, 6, 7, 8]]]"
  using as_rgba_permutation [of "\<lparr>reader = [], writer = [], decompress = (), name = [], vwidth = 2,
      vheight = 1, mode = ''bgra'', data = Some [[[1, 2, 3, 4], [5, 6, 7, 8]]]\<rparr>"]
  by (simp add: video_modes_def has_shape_def to_rgba_px_def from_rgba_px_def)

section \<open>Completeness of the buffer\<close>

text \<open>
  What \<^verbatim>\<open>is_complete\<close> computes: \<^verbatim>\<open>all()\<close> holds of an array whose elements
  are all non-zero, so the result is true exactly when a buffer is allocated and no
  alpha byte is 0.
\<close>

lemma is_complete_all:
  assumes "mode v \<in> set video_modes"
  shows "\<exists>k<4. str_index (mode v) CHR ''a'' = Inr k \<and>
      is_complete v =
        Inr (case data v of None \<Rightarrow> False | Some d \<Rightarrow> list_all (list_all (\<lambda>px. px ! k \<noteq> 0)) d)"
proof -
  from assms obtain k where k: "k < 4" "str_index (mode v) CHR ''a'' = Inr k"
    by (auto simp: video_modes_def str_index_def)
  have "is_complete v =
      Inr (case data v of None \<Rightarrow> False | Some d \<Rightarrow> list_all (list_all (\<lambda>px. px ! k \<noteq> 0)) d)"
    using k by (simp add: is_complete_def alpha_channel_def channel_def bind_e_def np_all_def
        list_all_iff split: option.splits)
  then show ?thesis using k by blast
qed

text \<open>
  C2. The claim is what the docstring of \<^verbatim>\<open>is_complete\<close> says, ``returns true if
  the video buffer is entirely opaque'', and the code does not do it: on the buffer of
  one pixel whose alpha byte is 7, which is not 255, \<^verbatim>\<open>is_complete\<close> returns true.
  On the same buffer \<^verbatim>\<open>detect_screens\<close>, which divides the alpha bytes by 255,
  takes the pixel as not filled and finds no screen.
\<close>

theorem is_complete_partial_alpha:
  "is_complete \<lparr>reader = [], writer = [], decompress = (), name = [], vwidth = 1, vheight = 1,
      mode = ''rgba'', data = Some [[[0, 0, 0, 7]]]\<rparr> = Inr True \<and>
   alpha_channel ''rgba'' [[[0, 0, 0, 7]]] = Inr [[7]] \<and> (7 :: byte) \<noteq> 255 \<and>
   binarize [[7]] = [[0]] \<and>
   detect_screens (\<lambda>_ _. 0)
     \<lparr>reader = [], writer = [], decompress = (), name = [], vwidth = 1, vheight = 1,
        mode = ''rgba'', data = Some [[[0, 0, 0, 7]]]\<rparr> =
     Some (Inr [], \<lparr>reader = [], writer = [], decompress = (), name = [], vwidth = 1, vheight = 1,
        mode = ''rgba'', data = Some [[[0, 0, 0, 7]]]\<rparr>)"
proof (intro conjI)
  show "is_complete \<lparr>reader = [], writer = [], decompress = (), name = [], vwidth = 1, vheight = 1,
      mode = ''rgba'', data = Some [[[0, 0, 0, 7]]]\<rparr> = Inr True"
    by (simp add: is_complete_def alpha_channel_def str_index_def channel_def bind_e_def np_all_def)
  show "alpha_channel ''rgba'' [[[0, 0, 0, 7]]] = Inr [[7]]"
    by (simp add: alpha_channel_def str_index_def channel_def bind_e_def)
  show "(7 :: byte) \<noteq> 255" by simp
  show "binarize [[7]] = [[0]]" by (simp add: binarize_def byte_div_255)
  show "detect_screens (\<lambda>_ _. 0)
     \<lparr>reader = [], writer = [], decompress = (), name = [], vwidth = 1, vheight = 1,
        mode = ''rgba'', data = Some [[[0, 0, 0, 7]]]\<rparr> =
     Some (Inr [], \<lparr>reader = [], writer = [], decompress = (), name = [], vwidth = 1, vheight = 1,
        mode = ''rgba'', data = Some [[[0, 0, 0, 7]]]\<rparr>)"
    by (rule detect_unmarked [where d = "[[[0, 0, 0, 7]]]" and k = 3])
      (simp_all add: has_shape_def str_index_def)
qed

section \<open>Screens of a buffer\<close>

text \<open>
  The products of a score are rounded: for the screen of 1 by 49 pixels the score is
  the double \<^verbatim>\<open>0.49999999999999994\<close>, the one below a half.
\<close>

lemma score_rounds:
  "score \<lparr>x = 0, y = 0, width = 1, height = 49\<rparr> =
     Inr (Double False (9007199254740991 / 18014398509481984))"
  by code_simp

text \<open>
  C3. For a buffer of \<open>w\<close> by \<open>h\<close> pixels, both positive, whose alpha bytes are all
  255, \<^verbatim>\<open>detect_screens\<close> returns exactly the screen \<open>(0, 0, w, h)\<close>. Its score is a
  float. For an area up to \<open>2 ^ 53\<close>, which a float holds exactly, the score is
  \<open>w * h\<close> when \<open>w / h\<close> or \<open>h / w\<close>, limited to denominators up to 64, is one of the
  six screen ratios. Otherwise it is the product, as floats, of \<open>w * h\<close> with the
  product of the smaller limited ratio and 0.5; it differs from the exact product by
  at most the \<open>2 ^ 51\<close>th part of it. The score is 5000 for 100 by 100 and 2073600 for
  1920 by 1080. The limited ratios exist and have denominators up to 64.
\<close>

theorem detect_screens_full:
  assumes "data v = Some d" "has_shape (vheight v) (vwidth v) d"
    and "alpha_channel (mode v) d = Inr (replicate (vheight v) (replicate (vwidth v) 255))"
    and "0 < vwidth v" "0 < vheight v" "vwidth v * vheight v \<le> 2 ^ 53"
  shows "detect_screens rank v =
           Some (Inr [\<lparr>x = 0, y = 0, width = int (vwidth v), height = int (vheight v)\<rparr>], v) \<and>
         (\<exists>r1 r2.
            limit_denominator 64 (Fract (int (vwidth v)) (int (vheight v))) = Inr r1 \<and>
            limit_denominator 64 (Fract (int (vheight v)) (int (vwidth v))) = Inr r2 \<and>
            snd (quotient_of r1) \<le> 64 \<and> snd (quotient_of r2) \<le> 64 \<and>
            score \<lparr>x = 0, y = 0, width = int (vwidth v), height = int (vheight v)\<rparr> =
              Inr (if r1 \<in> screen_ratios \<or> r2 \<in> screen_ratios
                   then Double False (of_int (int (vwidth v) * int (vheight v)))
                   else float_mul (Double False (of_int (int (vwidth v) * int (vheight v))))
                          (float_mul (Double False (round_double (min r1 r2)))
                             (Double False (1 / 2)))) \<and>
            (\<exists>sc. score \<lparr>x = 0, y = 0, width = int (vwidth v), height = int (vheight v)\<rparr> =
                    Inr (Double False sc) \<and>
                  (if r1 \<in> screen_ratios \<or> r2 \<in> screen_ratios
                   then sc = of_int (int (vwidth v) * int (vheight v))
                   else \<bar>sc - of_int (int (vwidth v) * int (vheight v)) * (min r1 r2 * (1 / 2))\<bar>
                     \<le> of_int (int (vwidth v) * int (vheight v)) * (min r1 r2 * (1 / 2)) / 2 ^ 51))) \<and>
         score \<lparr>x = 0, y = 0, width = 100, height = 100\<rparr> = Inr (Double False 5000) \<and>
         score \<lparr>x = 0, y = 0, width = 1920, height = 1080\<rparr> = Inr (Double False 2073600)"
proof (intro conjI)
  let ?w = "int (vwidth v)" and ?h = "int (vheight v)"
  let ?s = "\<lparr>x = 0, y = 0, width = ?w, height = ?h\<rparr>"
  have "int (vwidth v * vheight v) \<le> int (2 ^ 53)" using assms(6) by (simp only: of_nat_le_iff)
  then have area: "?w * ?h \<le> 2 ^ 53" by simp
  then have area': "?w * ?h < 2 ^ 1000" by simp
  have pos: "0 < ?w" "0 < ?h" using assms(4,5) by simp_all
  from assms(3) obtain k where k: "str_index (mode v) CHR ''a'' = Inr k" "k < 4"
    and m: "map (map (\<lambda>px. px ! k)) d = replicate (vheight v) (replicate (vwidth v) 255)"
    by (auto simp: alpha_channel_def channel_def bind_e_def split: sum.splits if_splits)
  have "d ! i ! j ! k = 255" if "i < vheight v" "j < vwidth v" for i j
  proof -
    have "map (map (\<lambda>px. px ! k)) d ! i ! j = d ! i ! j ! k"
      by (rule has_shape_nth [OF assms(2) that])
    then show ?thesis using that by (simp add: m)
  qed
  then have "detect_screens rank v = Some (Inr [screen_of 0 0 (vwidth v) (vheight v)], v)"
    using assms(4,5) area' by (intro detect_single_rect [OF assms(1,2) k]) simp_all
  then show "detect_screens rank v = Some (Inr [?s], v)"
    by (simp add: screen_of_def)
  define A :: rat where "A = of_int (?w * ?h)"
  have exact: "round_double (of_int (?w * ?h)) = A"
    unfolding A_def using area pos by (intro round_double_int) simp_all
  have "1 * 1 \<le> ?w * ?h" using pos by (intro mult_mono) simp_all
  then have "(of_int (1 * 1) :: rat) \<le> of_int (?w * ?h)" by (simp only: of_int_le_iff)
  then have A1: "1 \<le> A" by (simp add: A_def)
  have "(of_int (?w * ?h) :: rat) \<le> of_int (2 ^ 53)" using area by (simp only: of_int_le_iff)
  then have A53: "A \<le> 2 ^ 53" by (simp add: A_def)
  from score_value [of ?s, unfolded Screen.select_convs, OF pos area']
  obtain r1 r2 where r1: "limit_denominator 64 (Fract ?w ?h) = Inr r1"
    and r2: "limit_denominator 64 (Fract ?h ?w) = Inr r2"
    and d: "snd (quotient_of r1) \<le> 64" "snd (quotient_of r2) \<le> 64"
    and p: "0 \<le> r1" "0 \<le> r2" and u1: "r1 \<le> of_int (65 * ?w)"
    and sc: "score ?s =
      Inr (if r1 \<in> screen_ratios \<or> r2 \<in> screen_ratios then Double False A
           else float_mul (Double False A)
                  (float_mul (Double False (round_double (min r1 r2))) (Double False (1 / 2))))"
    unfolding exact by blast
  define r where "r = min r1 r2"
  have r0: "0 \<le> r" using p by (simp add: r_def)
  have "?w * 1 \<le> ?w * ?h" using pos by (intro mult_left_mono) simp_all
  then have "65 * ?w \<le> 65 * 2 ^ 53" using area by simp
  then have "(of_int (65 * ?w) :: rat) \<le> of_int (65 * 2 ^ 53)" by (simp only: of_int_le_iff)
  also have "\<dots> \<le> 2 ^ 60" by simp
  finally have "r1 \<le> 2 ^ 60" using u1 by simp
  then have r60: "r \<le> 2 ^ 60" by (simp add: r_def)
  have bound: "\<exists>sc. score ?s = Inr (Double False sc) \<and>
      (if r1 \<in> screen_ratios \<or> r2 \<in> screen_ratios then sc = A
       else \<bar>sc - A * (r * (1 / 2))\<bar> \<le> A * (r * (1 / 2)) / 2 ^ 51)"
  proof (cases "r1 \<in> screen_ratios \<or> r2 \<in> screen_ratios")
    case True
    then show ?thesis using sc by simp
  next
    case False
    define c where "c = round_double (A * round_double (round_double r * (1 / 2)))"
    have "score ?s = Inr (float_mul (Double False A)
        (float_mul (Double False (round_double r)) (Double False (1 / 2))))"
      using sc False by (simp only: r_def if_False)
    also have "float_mul (Double False A)
        (float_mul (Double False (round_double r)) (Double False (1 / 2))) = Double False c"
      unfolding c_def using A1 A53 r0 r60 by (intro score_product) simp_all
    finally have s: "score ?s = Inr (Double False c)" .
    have "\<bar>c - A * (r * (1 / 2))\<bar> \<le> A * (r * (1 / 2)) / 2 ^ 51"
    proof (cases "r = 0")
      case True
      then show ?thesis by (simp add: c_def round_double_def)
    next
      case nz: False
      then have rp: "0 < r" using r0 by simp
      have "snd (quotient_of r) \<le> 64" using d by (simp add: r_def min_def)
      with rp have "1 / 64 \<le> r" by (rule limited_ge)
      with A1 show ?thesis unfolding c_def by (rule score_error)
    qed
    with s False show ?thesis by auto
  qed
  show "\<exists>r1 r2.
            limit_denominator 64 (Fract ?w ?h) = Inr r1 \<and>
            limit_denominator 64 (Fract ?h ?w) = Inr r2 \<and>
            snd (quotient_of r1) \<le> 64 \<and> snd (quotient_of r2) \<le> 64 \<and>
            score ?s =
              Inr (if r1 \<in> screen_ratios \<or> r2 \<in> screen_ratios
                   then Double False (of_int (?w * ?h))
                   else float_mul (Double False (of_int (?w * ?h)))
                          (float_mul (Double False (round_double (min r1 r2)))
                             (Double False (1 / 2)))) \<and>
            (\<exists>sc. score ?s = Inr (Double False sc) \<and>
                  (if r1 \<in> screen_ratios \<or> r2 \<in> screen_ratios
                   then sc = of_int (?w * ?h)
                   else \<bar>sc - of_int (?w * ?h) * (min r1 r2 * (1 / 2))\<bar>
                     \<le> of_int (?w * ?h) * (min r1 r2 * (1 / 2)) / 2 ^ 51))"
    using r1 r2 d sc bound [unfolded r_def] unfolding A_def [symmetric] by blast
next
  show "score \<lparr>x = 0, y = 0, width = 100, height = 100\<rparr> = Inr (Double False 5000)"
    by code_simp
next
  show "score \<lparr>x = 0, y = 0, width = 1920, height = 1080\<rparr> = Inr (Double False 2073600)"
    by code_simp
qed

text \<open>An instance: the buffer of 100 by 100 marked pixels in mode \<^verbatim>\<open>bgra\<close>.\<close>

theorem detect_screens_full_witness:
  "detect_screens (\<lambda>_ _. 0)
     \<lparr>reader = [], writer = [], decompress = (), name = [], vwidth = 100, vheight = 100,
        mode = ''bgra'', data = Some (replicate 100 (replicate 100 [0, 0, 0, 255]))\<rparr> =
   Some (Inr [\<lparr>x = 0, y = 0, width = 100, height = 100\<rparr>],
     \<lparr>reader = [], writer = [], decompress = (), name = [], vwidth = 100, vheight = 100,
        mode = ''bgra'', data = Some (replicate 100 (replicate 100 [0, 0, 0, 255]))\<rparr>) \<and>
   score \<lparr>x = 0, y = 0, width = 100, height = 100\<rparr> = Inr (Double False 5000)"
  using detect_screens_full [of
      "\<lparr>reader = [], writer = [], decompress = (), name = [], vwidth = 100, vheight = 100,
        mode = ''bgra'', data = Some (replicate 100 (replicate 100 [0, 0, 0, 255]))\<rparr>"
      "replicate 100 (replicate 100 [0, 0, 0, 255])" "\<lambda>_ _. 0"]
  by (simp add: has_shape_def alpha_channel_def str_index_def channel_def bind_e_def list_all_iff)

lemma crop_array:
  assumes "is_array h w m" "u0 \<le> u1" "u1 \<le> w" "v0 \<le> v1" "v1 \<le> h"
  shows "is_array (v1 - v0) (u1 - u0) (crop (screen_of u0 v0 u1 v1) m)"
    and "i < v1 - v0 \<Longrightarrow> j < u1 - u0 \<Longrightarrow> crop (screen_of u0 v0 u1 v1) m ! i ! j = m ! (v0 + i) ! (u0 + j)"
proof -
  have len: "length m = h" using assms(1) by (rule is_array_length)
  have c: "crop (screen_of u0 v0 u1 v1) m = map (py_slice (int u0) (int u1)) (py_slice (int v0) (int v1) m)"
    by (simp add: crop_def slices_def screen_of_def)
  have rows: "length (py_slice (int v0) (int v1) m) = v1 - v0"
    using assms(4,5) len by (simp add: py_slice_def Let_def min_def)
  have row: "py_slice (int v0) (int v1) m ! i = m ! (v0 + i)" if "i < v1 - v0" for i
    using that assms(4,5) len by (intro py_slice_nth(1)) simp_all
  have rl: "length (m ! (v0 + i)) = w" if "i < v1 - v0" for i
  proof -
    have "v0 + i < h" using that assms(5) by linarith
    then show ?thesis using assms(1) by (simp add: is_array_row)
  qed
  show "is_array (v1 - v0) (u1 - u0) (crop (screen_of u0 v0 u1 v1) m)"
  proof (rule is_arrayI)
    show "length (crop (screen_of u0 v0 u1 v1) m) = v1 - v0" by (simp add: c rows)
  next
    fix i assume i: "i < v1 - v0"
    then have "crop (screen_of u0 v0 u1 v1) m ! i = py_slice (int u0) (int u1) (m ! (v0 + i))"
      by (simp add: c rows row)
    then show "length (crop (screen_of u0 v0 u1 v1) m ! i) = u1 - u0"
      using assms(2,3) rl [OF i] by (simp add: py_slice_def Let_def min_def)
  qed
  assume i: "i < v1 - v0" and j: "j < u1 - u0"
  have "crop (screen_of u0 v0 u1 v1) m ! i = py_slice (int u0) (int u1) (m ! (v0 + i))"
    using i by (simp add: c rows row)
  moreover have "py_slice (int u0) (int u1) (m ! (v0 + i)) ! j = m ! (v0 + i) ! (u0 + j)"
    using j assms(2,3) rl [OF i] by (intro py_slice_nth(1)) simp_all
  ultimately show "crop (screen_of u0 v0 u1 v1) m ! i ! j = m ! (v0 + i) ! (u0 + j)" by simp
qed

lemma crop_clear:
  assumes "is_array h w m" "u0 \<le> u1" "u1 \<le> w" "v0 \<le> v1" "v1 \<le> h"
  shows "crop (screen_of u0 v0 u1 v1) (clear (screen_of u0 v0 u1 v1) m) =
    replicate (v1 - v0) (replicate (u1 - u0) 0)"
proof (rule array_eqI [where h = "v1 - v0" and w = "u1 - u0"])
  have cl: "is_array h w (clear (screen_of u0 v0 u1 v1) m)" by (rule clear_array [OF assms(1)])
  show "is_array (v1 - v0) (u1 - u0) (crop (screen_of u0 v0 u1 v1) (clear (screen_of u0 v0 u1 v1) m))"
    by (rule crop_array(1) [OF cl assms(2-5)])
  show "is_array (v1 - v0) (u1 - u0) (replicate (v1 - v0) (replicate (u1 - u0) (0::'a)))"
    by (rule is_arrayI) simp_all
  fix i j assume ij: "i < v1 - v0" "j < u1 - u0"
  then have b: "v0 + i < h" "u0 + j < w" using assms by linarith+
  have r: "v0 + i < v1" "u0 + j < u1" using ij by linarith+
  show "crop (screen_of u0 v0 u1 v1) (clear (screen_of u0 v0 u1 v1) m) ! i ! j =
      replicate (v1 - v0) (replicate (u1 - u0) 0) ! i ! j"
    using ij r by (simp add: crop_array(2) [OF cl assms(2-5) ij] clear_nth [OF assms(1) b])
qed

text \<open>
  C4. \<^verbatim>\<open>detect_screens\<close> returns for every video object whose buffer is absent or
  has the negotiated shape, and returns the object as it was: the working mask is a
  copy, and only the copy is written. In one of the four modes it returns a list of
  screens, and no exception but the \<^verbatim>\<open>OverflowError\<close> that the conversion of an area
  to a float raises; for a buffer of fewer than \<open>2 ^ 1000\<close> pixels it returns a list of
  screens. Every candidate of a working mask has width and height at
  least 1. In every round that accepts a screen, the screen lies inside the mask, its
  region of the mask has exactly its size and is entirely non-zero, the region is all
  zero after the round, and the filled area of the working mask has strictly decreased.
\<close>

theorem detect_screens_terminates:
  "(video_ok v \<longrightarrow>
      (\<exists>r. detect_screens rank v = Some (r, v)) \<and>
      (mode v \<in> set video_modes \<longrightarrow>
         (\<exists>ss. detect_screens rank v = Some (Inr ss, v)) \<or>
         detect_screens rank v = Some (Inl OverflowError, v)) \<and>
      (mode v \<in> set video_modes \<and> vwidth v * vheight v < 2 ^ 1000 \<longrightarrow>
         (\<exists>ss. detect_screens rank v = Some (Inr ss, v)))) \<and>
   (is_array (Suc (Suc h)) (Suc (Suc w)) msk \<and> c \<in> set (candidates rank msk) \<longrightarrow>
      1 \<le> width c \<and> 1 \<le> height c) \<and>
   (is_array (Suc (Suc h)) (Suc (Suc w)) msk \<and> accept rank msk = Inr (Some s) \<longrightarrow>
      1 \<le> width s \<and> 1 \<le> height s \<and> 0 \<le> x s \<and> 0 \<le> y s \<and>
      x s + width s \<le> int w \<and> y s + height s \<le> int h \<and>
      is_array (nat (height s)) (nat (width s)) (crop s (mask_a msk)) \<and>
      np_all (crop s (mask_a msk)) \<and>
      crop s (mask_a (assign_mask_a msk (clear s (mask_a msk)))) =
        replicate (nat (height s)) (replicate (nat (width s)) 0) \<and>
      filled_area (assign_mask_a msk (clear s (mask_a msk))) < filled_area msk)"
proof (intro conjI impI)
  assume "video_ok v"
  then show "\<exists>r. detect_screens rank v = Some (r, v)"
    unfolding video_ok_def by (rule detect_screens_returns(1))
next
  assume "video_ok v" "mode v \<in> set video_modes"
  then show "(\<exists>ss. detect_screens rank v = Some (Inr ss, v)) \<or>
      detect_screens rank v = Some (Inl OverflowError, v)"
    unfolding video_ok_def by (rule detect_screens_returns(2))
next
  assume "video_ok v" "mode v \<in> set video_modes \<and> vwidth v * vheight v < 2 ^ 1000"
  then show "\<exists>ss. detect_screens rank v = Some (Inr ss, v)"
    unfolding video_ok_def using detect_screens_returns(3) [of v rank] by blast
next
  assume a: "is_array (Suc (Suc h)) (Suc (Suc w)) msk \<and> c \<in> set (candidates rank msk)"
  then have mc: "is_array (Suc (Suc h)) (Suc (Suc w)) msk" "c \<in> set (candidates rank msk)"
    by simp_all
  have "\<exists>u0 v0 u1 v1. c = screen_of u0 v0 u1 v1 \<and> u0 < u1 \<and> u1 < Suc w \<and> v0 < v1 \<and> v1 < Suc h"
    by (rule candidates_bounds [OF mc])
  then obtain u0 v0 u1 v1 where "c = screen_of u0 v0 u1 v1" "u0 < u1" "v0 < v1" by blast
  then show "1 \<le> width c" "1 \<le> height c" by (simp_all add: screen_of_def)
next
  assume a: "is_array (Suc (Suc h)) (Suc (Suc w)) msk \<and> accept rank msk = Inr (Some s)"
  then have msk: "is_array (Suc (Suc h)) (Suc (Suc w)) msk" and acc: "accept rank msk = Inr (Some s)"
    by simp_all
  from accept_step [OF msk acc] obtain u0 v0 u1 v1 where
    s: "s = screen_of u0 v0 u1 v1" and b: "u0 < u1" "u1 \<le> w" "v0 < v1" "v1 \<le> h"
    and lt: "filled_area (assign_mask_a msk (clear s (mask_a msk))) < filled_area msk"
    by blast
  have b': "u0 \<le> u1" "u1 \<le> Suc w" "v0 \<le> v1" "v1 \<le> Suc h" using b by simp_all
  have ma: "is_array (Suc h) (Suc w) (mask_a msk)" by (rule mask_a_array [OF msk])
  have cl: "is_array (Suc h) (Suc w) (clear s (mask_a msk))" by (rule clear_array [OF ma])
  have wh: "nat (height s) = v1 - v0" "nat (width s) = u1 - u0"
    using b by (simp_all add: s screen_of_def)
  show "1 \<le> width s" "1 \<le> height s" "0 \<le> x s" "0 \<le> y s"
    "x s + width s \<le> int w" "y s + height s \<le> int h"
    using b by (simp_all add: s screen_of_def)
  show "is_array (nat (height s)) (nat (width s)) (crop s (mask_a msk))"
    unfolding wh unfolding s by (rule crop_array(1) [OF ma b'])
  show "np_all (crop s (mask_a msk))"
    using accept_Some [OF acc] by simp
  show "crop s (mask_a (assign_mask_a msk (clear s (mask_a msk)))) =
      replicate (nat (height s)) (replicate (nat (width s)) 0)"
    unfolding mask_a_assign [OF msk cl] wh unfolding s by (rule crop_clear [OF ma b'])
  show "filled_area (assign_mask_a msk (clear s (mask_a msk))) < filled_area msk"
    by (rule lt)
qed

text \<open>
  An instance: the buffer of one marked pixel, and the round on its working mask.
\<close>

theorem detect_screens_terminates_witness:
  "video_ok \<lparr>reader = [], writer = [], decompress = (), name = [], vwidth = 1, vheight = 1,
       mode = ''rgba'', data = Some [[[0, 0, 0, 255]]]\<rparr> \<and>
   (\<exists>ss. detect_screens (\<lambda>_ _. 0)
       \<lparr>reader = [], writer = [], decompress = (), name = [], vwidth = 1, vheight = 1,
          mode = ''rgba'', data = Some [[[0, 0, 0, 255]]]\<rparr> =
     Some (Inr ss, \<lparr>reader = [], writer = [], decompress = (), name = [], vwidth = 1, vheight = 1,
          mode = ''rgba'', data = Some [[[0, 0, 0, 255]]]\<rparr>)) \<and>
   is_array 3 3 [[0, 0, 0], [0, 1, 0], [0, 0, 0 :: int8]] \<and>
   candidates (\<lambda>_ _. 0) [[0, 0, 0], [0, 1, 0], [0, 0, 0]] =
     [\<lparr>x = 0, y = 0, width = 1, height = 1\<rparr>] \<and>
   accept (\<lambda>_ _. 0) [[0, 0, 0], [0, 1, 0], [0, 0, 0]] =
     Inr (Some \<lparr>x = 0, y = 0, width = 1, height = 1\<rparr>) \<and>
   filled_area (assign_mask_a [[0, 0, 0], [0, 1, 0], [0, 0, 0]]
       (clear \<lparr>x = 0, y = 0, width = 1, height = 1\<rparr> (mask_a [[0, 0, 0], [0, 1, 0], [0, 0, 0]])))
     < filled_area [[0, 0, 0], [0, 1, 0], [0, 0, 0]]"
proof -
  have acc: "accept (\<lambda>_ _. 0) [[0, 0, 0], [0, 1, 0], [0, 0, 0]] =
      Inr (Some \<lparr>x = 0, y = 0, width = 1, height = 1\<rparr>)"
    by code_simp
  have cand: "candidates (\<lambda>_ _. 0) [[0, 0, 0], [0, 1, 0], [0, 0, 0]] =
      [\<lparr>x = 0, y = 0, width = 1, height = 1\<rparr>]"
    by code_simp
  have arr: "is_array (Suc (Suc 1)) (Suc (Suc 1)) [[0, 0, 0], [0, 1, 0], [0, 0, 0 :: int8]]"
    by (simp add: is_array_def)
  have ok: "video_ok \<lparr>reader = [], writer = [], decompress = (), name = [], vwidth = 1, vheight = 1,
       mode = ''rgba'', data = Some [[[0, 0, 0, 255]]]\<rparr>"
    by (simp add: video_ok_def has_shape_def)
  show ?thesis
    using detect_screens_terminates [of
        "\<lparr>reader = [], writer = [], decompress = (), name = [], vwidth = 1, vheight = 1,
          mode = ''rgba'', data = Some [[[0, 0, 0, 255]]]\<rparr>"
        "\<lambda>_ _. 0" 1 1 "[[0, 0, 0], [0, 1, 0], [0, 0, 0]]" "\<lparr>x = 0, y = 0, width = 1, height = 1\<rparr>"
        "\<lparr>x = 0, y = 0, width = 1, height = 1\<rparr>"]
      acc cand arr ok
    by (simp add: is_array_def video_modes_def)
qed

text \<open>
  C1, as the code has it. For a buffer in which exactly the pixels of the two regions
  \<open>(0, 0, 800, 600)\<close> and \<open>(800, 0, 800, 600)\<close> are marked, \<^verbatim>\<open>detect_screens\<close> returns
  exactly one screen, \<open>(0, 0, 1600, 600)\<close>. It is entirely filled, and its pixels are
  those of the two regions, each counted once: the mask has no boundary between two
  adjacent regions.
\<close>

theorem detect_screens_adjacent:
  assumes "data v = Some d" "has_shape (vheight v) (vwidth v) d"
    and "alpha_channel (mode v) d = Inr m"
    and "\<forall>i<vheight v. \<forall>j<vwidth v.
           (m ! i ! j = 255) = (in_region (0, 0, 800, 600) i j \<or> in_region (800, 0, 800, 600) i j)"
    and "1600 \<le> vwidth v" "600 \<le> vheight v"
  shows "detect_screens rank v = Some (Inr [\<lparr>x = 0, y = 0, width = 1600, height = 600\<rparr>], v) \<and>
         (in_region (0, 0, 1600, 600) i j \<longleftrightarrow>
            in_region (0, 0, 800, 600) i j \<or> in_region (800, 0, 800, 600) i j)"
proof
  from assms(3) obtain k where k: "str_index (mode v) CHR ''a'' = Inr k" "k < 4"
    and m: "m = map (map (\<lambda>px. px ! k)) d"
    by (auto simp: alpha_channel_def channel_def bind_e_def split: sum.splits if_splits)
  have "d ! i ! j ! k = 255 \<longleftrightarrow> 0 \<le> i \<and> i < 600 \<and> 0 \<le> j \<and> j < 1600"
    if "i < vheight v" "j < vwidth v" for i j
  proof -
    have "m ! i ! j = d ! i ! j ! k"
      unfolding m by (rule has_shape_nth [OF assms(2) that])
    then show ?thesis using assms(4) [rule_format, OF that] by (auto simp: in_region_def)
  qed
  then have "detect_screens rank v = Some (Inr [screen_of 0 0 1600 600], v)"
    using assms(5,6) by (intro detect_single_rect [OF assms(1,2) k]) simp_all
  then show "detect_screens rank v = Some (Inr [\<lparr>x = 0, y = 0, width = 1600, height = 600\<rparr>], v)"
    by (simp add: screen_of_def)
next
  show "in_region (0, 0, 1600, 600) i j \<longleftrightarrow>
      in_region (0, 0, 800, 600) i j \<or> in_region (800, 0, 800, 600) i j"
    by (auto simp: in_region_def)
qed

text \<open>An instance: the buffer \<open>two_regions\<close>.\<close>

theorem detect_screens_adjacent_witness:
  "detect_screens (\<lambda>_ _. 0) two_regions =
     Some (Inr [\<lparr>x = 0, y = 0, width = 1600, height = 600\<rparr>], two_regions)"
proof -
  let ?d = "map (\<lambda>i. map (\<lambda>j.
                 [0, 0, 0, if in_region (0, 0, 800, 600) i j \<or> in_region (800, 0, 800, 600) i j
                           then 255 else 0 :: byte]) [0..<2000]) [0..<1000]"
  have d: "data two_regions = Some ?d" by (simp add: two_regions_def)
  have sh: "has_shape (vheight two_regions) (vwidth two_regions) ?d"
    by (simp add: two_regions_def has_shape_def list_all_iff)
  have ac: "alpha_channel (mode two_regions) ?d = Inr (map (map (\<lambda>px. px ! 3)) ?d)"
    by (simp add: two_regions_def alpha_channel_def str_index_def channel_def bind_e_def)
  have al: "\<forall>i<vheight two_regions. \<forall>j<vwidth two_regions.
      (map (map (\<lambda>px. px ! 3)) ?d ! i ! j = 255) =
      (in_region (0, 0, 800, 600) i j \<or> in_region (800, 0, 800, 600) i j)"
    by (simp add: two_regions_def)
  have "1600 \<le> vwidth two_regions" "600 \<le> vheight two_regions"
    by (simp_all add: two_regions_def)
  from detect_screens_adjacent [OF d sh ac al this] show ?thesis by simp
qed

text \<open>
  C1 as stated fails: on the buffer that consists of the two regions the result is the
  single screen \<open>(0, 0, 1600, 600)\<close>, and neither of the two screens is returned.
\<close>

theorem detect_screens_merges_adjacent:
  "detect_screens (\<lambda>_ _. 0) two_screens =
     Some (Inr [\<lparr>x = 0, y = 0, width = 1600, height = 600\<rparr>], two_screens) \<and>
   \<lparr>x = 0, y = 0, width = 800, height = 600\<rparr> \<notin> set [\<lparr>x = 0, y = 0, width = 1600, height = 600\<rparr>] \<and>
   \<lparr>x = 800, y = 0, width = 800, height = 600\<rparr> \<notin> set [\<lparr>x = 0, y = 0, width = 1600, height = 600\<rparr>]"
proof -
  have d: "data two_screens = Some (replicate 600 (replicate 1600 [0, 0, 0, 255]))"
    by (simp add: two_screens_def)
  have sh: "has_shape (vheight two_screens) (vwidth two_screens) (replicate 600 (replicate 1600 [0, 0, 0, 255]))"
    by (simp add: two_screens_def has_shape_def list_all_iff)
  have k: "str_index (mode two_screens) CHR ''a'' = Inr 3" "(3::nat) < 4"
    by (simp_all add: two_screens_def str_index_def)
  have "detect_screens (\<lambda>_ _. 0) two_screens = Some (Inr [screen_of 0 0 1600 600], two_screens)"
    by (rule detect_single_rect [OF d sh k]) (simp_all add: two_screens_def)
  then show ?thesis by (simp add: screen_of_def)
qed

text \<open>
  C10. The cell of the working mask for a pixel is 1 when the alpha byte of the pixel
  is 255 and 0 for every other value. When every alpha byte lies between 1 and 254,
  \<^verbatim>\<open>is_complete\<close> reports the buffer complete and \<^verbatim>\<open>detect_screens\<close> finds no
  screen.
\<close>

theorem detect_screens_binarize:
  assumes "data v = Some d" "has_shape (vheight v) (vwidth v) d" "mode v \<in> set video_modes"
  shows "\<exists>m. alpha_channel (mode v) d = Inr m \<and>
     (\<forall>i<vheight v. \<forall>j<vwidth v.
        mask_a (np_pad (vwidth v) (binarize m)) ! i ! j = (if m ! i ! j = 255 then 1 else 0)) \<and>
     ((\<forall>i<vheight v. \<forall>j<vwidth v. m ! i ! j \<noteq> 0 \<and> m ! i ! j \<noteq> 255) \<longrightarrow>
        is_complete v = Inr True \<and> detect_screens rank v = Some (Inr [], v))"
proof -
  from alpha_channel_modes [OF assms(3), of d] obtain k where k: "k < 4"
    "str_index (mode v) CHR ''a'' = Inr k"
    and ac: "alpha_channel (mode v) d = Inr (map (map (\<lambda>px. px ! k)) d)"
    by blast
  let ?m = "map (map (\<lambda>px. px ! k)) d"
  have m: "is_array (vheight v) (vwidth v) ?m" by (rule has_shape_array [OF assms(2)])
  have cellm: "?m ! i ! j = d ! i ! j ! k" if "i < vheight v" "j < vwidth v" for i j
    by (rule has_shape_nth [OF assms(2) that])
  have cells: "mask_a (np_pad (vwidth v) (binarize ?m)) ! i ! j = (if ?m ! i ! j = 255 then 1 else 0)"
    if "i < vheight v" "j < vwidth v" for i j
  proof -
    have "mask_a (np_pad (vwidth v) (binarize ?m)) ! i ! j = np_pad (vwidth v) (binarize ?m) ! Suc i ! Suc j"
      using that by (intro mask_a_nth [OF working_mask(1) [OF assms(2)]]) simp_all
    also have "\<dots> = (if d ! i ! j ! k = 255 then 1 else 0)"
      using that by (subst working_mask(2) [OF assms(2)]) simp_all
    finally show ?thesis by (simp only: cellm [OF that])
  qed
  have none: "is_complete v = Inr True \<and> detect_screens rank v = Some (Inr [], v)"
    if h: "\<forall>i<vheight v. \<forall>j<vwidth v. ?m ! i ! j \<noteq> 0 \<and> ?m ! i ! j \<noteq> 255"
  proof
    have "np_all ?m"
      unfolding np_all_def list_all_length
      using h m by (auto simp: is_array_length is_array_row simp del: length_map nth_map)
    then show "is_complete v = Inr True"
      by (simp add: is_complete_def assms(1) ac bind_e_def)
    show "detect_screens rank v = Some (Inr [], v)"
    proof (rule detect_unmarked [OF assms(1,2) k(2,1)])
      fix i j assume ij: "i < vheight v" "j < vwidth v"
      then show "d ! i ! j ! k \<noteq> 255" using h cellm [OF ij] by auto
    qed
  qed
  show ?thesis using ac cells none by blast
qed

text \<open>An instance: two pixels with the alpha bytes 1 and 254 in mode \<^verbatim>\<open>abgr\<close>.\<close>

theorem detect_screens_binarize_witness:
  "is_complete \<lparr>reader = [], writer = [], decompress = (), name = [], vwidth = 2, vheight = 1,
       mode = ''abgr'', data = Some [[[1, 0, 0, 0], [254, 0, 0, 0]]]\<rparr> = Inr True \<and>
   detect_screens (\<lambda>_ _. 0)
     \<lparr>reader = [], writer = [], decompress = (), name = [], vwidth = 2, vheight = 1,
       mode = ''abgr'', data = Some [[[1, 0, 0, 0], [254, 0, 0, 0]]]\<rparr> =
     Some (Inr [], \<lparr>reader = [], writer = [], decompress = (), name = [], vwidth = 2, vheight = 1,
       mode = ''abgr'', data = Some [[[1, 0, 0, 0], [254, 0, 0, 0]]]\<rparr>)"
proof -
  let ?v = "\<lparr>reader = [], writer = [], decompress = (), name = [], vwidth = 2, vheight = 1,
       mode = ''abgr'', data = Some [[[1, 0, 0, 0], [254, 0, 0, 0 :: byte]]]\<rparr>"
  have h: "data ?v = Some [[[1, 0, 0, 0], [254, 0, 0, 0]]]"
    "has_shape (vheight ?v) (vwidth ?v) [[[1, 0, 0, 0], [254, 0, 0, 0]]]"
    "mode ?v \<in> set video_modes"
    by (simp_all add: has_shape_def video_modes_def)
  from detect_screens_binarize [OF h, of "\<lambda>_ _. 0"] obtain m where
    ac: "alpha_channel (mode ?v) [[[1, 0, 0, 0], [254, 0, 0, 0]]] = Inr m"
    and imp: "(\<forall>i<vheight ?v. \<forall>j<vwidth ?v. m ! i ! j \<noteq> 0 \<and> m ! i ! j \<noteq> 255) \<longrightarrow>
        is_complete ?v = Inr True \<and> detect_screens (\<lambda>_ _. 0) ?v = Some (Inr [], ?v)"
    by blast
  from ac have m: "m = [[1, 254]]"
    by (simp add: alpha_channel_def str_index_def channel_def bind_e_def)
  have "\<forall>i<vheight ?v. \<forall>j<vwidth ?v. m ! i ! j \<noteq> 0 \<and> m ! i ! j \<noteq> 255"
    by (auto simp: m less_2_cases_iff)
  with imp show ?thesis by blast
qed

section \<open>Reading rectangles\<close>

lemma on_reader_read_int:
  "n \<le> length (reader v) \<Longrightarrow>
     on_reader (read_int n) v = (Inr (from_bytes_big (take n (reader v))), v\<lparr>reader := drop n (reader v)\<rparr>)"
  "length (reader v) < n \<Longrightarrow> on_reader (read_int n) v = (Inl IncompleteReadError, v\<lparr>reader := []\<rparr>)"
  by (simp_all add: on_reader_def read_int_def readexactly_def bind_s_def return_s_def)

lemma Video_read_header:
  assumes "12 \<le> length (reader v)"
  shows "Video_read inflate v =
    read_body inflate (rect_header (reader v)) (rect_encoding (reader v)) (v\<lparr>reader := drop 12 (reader v)\<rparr>)"
proof -
  let ?s = "reader v"
  have 1: "on_reader (read_int 2) v = (Inr (from_bytes_big (take 2 ?s)), v\<lparr>reader := drop 2 ?s\<rparr>)"
    using assms by (simp add: on_reader_read_int)
  have 2: "on_reader (read_int 2) (v\<lparr>reader := drop 2 ?s\<rparr>) =
      (Inr (from_bytes_big (take 2 (drop 2 ?s))), v\<lparr>reader := drop 4 ?s\<rparr>)"
    using assms by (simp add: on_reader_read_int)
  have 3: "on_reader (read_int 2) (v\<lparr>reader := drop 4 ?s\<rparr>) =
      (Inr (from_bytes_big (take 2 (drop 4 ?s))), v\<lparr>reader := drop 6 ?s\<rparr>)"
    using assms by (simp add: on_reader_read_int)
  have 4: "on_reader (read_int 2) (v\<lparr>reader := drop 6 ?s\<rparr>) =
      (Inr (from_bytes_big (take 2 (drop 6 ?s))), v\<lparr>reader := drop 8 ?s\<rparr>)"
    using assms by (simp add: on_reader_read_int)
  have 5: "on_reader (read_int 4) (v\<lparr>reader := drop 8 ?s\<rparr>) =
      (Inr (from_bytes_big (take 4 (drop 8 ?s))), v\<lparr>reader := drop 12 ?s\<rparr>)"
    using assms by (simp add: on_reader_read_int)
  show ?thesis
    unfolding Video_read_def
    by (simp add: bind_s_def [of "on_reader (read_int 2)"] bind_s_def [of "on_reader (read_int 4)"]
        1 2 3 4 5 read_body_def rect_header_def rect_encoding_def)
qed

lemma Video_read_short:
  assumes "length (reader v) < 12"
  shows "Video_read inflate v = (Inl IncompleteReadError, v\<lparr>reader := []\<rparr>)"
proof -
  let ?s = "reader v"
  have r0: "on_reader (read_int n) v =
      (if n \<le> length ?s
       then (Inr (from_bytes_big (take n ?s)), v\<lparr>reader := drop n ?s\<rparr>)
       else (Inl IncompleteReadError, v\<lparr>reader := []\<rparr>))" for n
    by (simp add: on_reader_def read_int_def readexactly_def bind_s_def return_s_def)
  have r: "on_reader (read_int n) (v\<lparr>reader := t\<rparr>) =
      (if n \<le> length t
       then (Inr (from_bytes_big (take n t)), v\<lparr>reader := drop n t\<rparr>)
       else (Inl IncompleteReadError, v\<lparr>reader := []\<rparr>))" for n t
    by (simp add: on_reader_def read_int_def readexactly_def bind_s_def return_s_def)
  show ?thesis
    unfolding Video_read_def using assms
    by (auto simp add: bind_s_def [of "on_reader (read_int 2)"] bind_s_def [of "on_reader (read_int 4)"] r0 r)
qed

lemma store_rect_errors:
  assumes "fst (store_rect px py w h bs v) = Inl e"
  shows "store_error e"
  using assms
  by (auto simp: store_rect_def Let_def bind_e_def np_ndarray_def assign_rect_def fill_channel_def
      str_index_def store_error_def split: sum.splits if_splits)

lemma read_body_unsupported:
  assumes "encoding \<noteq> 0" "encoding \<noteq> 6"
  shows "read_body inflate r encoding v = (Inl (UnsupportedEncoding encoding), v)"
  using assms by (cases r) (simp add: read_body_def bind_s_def raise_s_def)

lemma read_body_errors:
  assumes "encoding = 0 \<or> encoding = 6" "fst (read_body inflate r encoding v) = Inl e"
  shows "e = IncompleteReadError \<or> e = DecompressError \<or> store_error e"
proof -
  obtain px py w h where r: "r = (px, py, w, h)" by (cases r)
  show ?thesis
  proof (cases "encoding = 0")
    case True
    show ?thesis
    proof (cases "on_reader (readexactly (h * w * 4)) v")
      case (Pair res v')
      show ?thesis
      proof (cases res)
        case (Inl e')
        with Pair True assms(2) have "e = e'" by (simp add: read_body_def r bind_s_def)
        moreover from Pair Inl have "e' = IncompleteReadError"
          by (auto simp: on_reader_def readexactly_def split: if_splits prod.splits)
        ultimately show ?thesis by simp
      next
        case (Inr bs)
        with Pair True assms(2) have "fst (store_rect px py w h bs v') = Inl e"
          by (simp add: read_body_def r bind_s_def)
        then show ?thesis using store_rect_errors by blast
      qed
    qed
  next
    case False
    with assms(1) have six: "encoding = 6" by simp
    let ?payload = "bind_s (on_reader (read_int 4)) (\<lambda>len.
             bind_s (on_reader (readexactly len)) (\<lambda>bs. call_decompress inflate bs))"
    show ?thesis
    proof (cases "?payload v")
      case (Pair res v')
      show ?thesis
      proof (cases res)
        case (Inl e')
        with Pair six assms(2) have "e = e'" by (simp add: read_body_def r bind_s_def)
        moreover from Pair Inl have "e' = IncompleteReadError \<or> e' = DecompressError"
          by (auto simp: on_reader_def readexactly_def read_int_def bind_s_def return_s_def
              call_decompress_def split: if_splits prod.splits sum.splits option.splits)
        ultimately show ?thesis by blast
      next
        case (Inr bs)
        with Pair six assms(2) have "fst (store_rect px py w h bs v') = Inl e"
          by (simp add: read_body_def r bind_s_def)
        then show ?thesis using store_rect_errors by blast
      qed
    qed
  qed
qed

lemma Video_read_errors:
  assumes "fst (Video_read inflate v) = Inl e"
  shows "e = IncompleteReadError \<or> e = DecompressError \<or> store_error e \<or>
    (12 \<le> length (reader v) \<and> rect_encoding (reader v) \<noteq> 0 \<and> rect_encoding (reader v) \<noteq> 6 \<and>
     e = UnsupportedEncoding (rect_encoding (reader v)))"
proof (cases "12 \<le> length (reader v)")
  case False
  then show ?thesis using assms by (simp add: Video_read_short)
next
  case True
  show ?thesis
  proof (cases "rect_encoding (reader v) = 0 \<or> rect_encoding (reader v) = 6")
    case enc: True
    from assms have "fst (read_body inflate (rect_header (reader v)) (rect_encoding (reader v))
        (v\<lparr>reader := drop 12 (reader v)\<rparr>)) = Inl e"
      by (simp add: Video_read_header [OF True])
    from read_body_errors [OF enc this] show ?thesis by blast
  next
    case enc: False
    then show ?thesis using assms True
      by (simp add: Video_read_header [OF True] read_body_unsupported)
  qed
qed

text \<open>
  C8, as the code has it. \<^verbatim>\<open>Video.read\<close> raises the error for an unsupported
  encoding exactly when it has read a rectangle header of 12 bytes whose encoding code
  is neither 0 nor 6. It has then read nothing but the header, and the pixel buffer
  and every other field are as before: a buffer that was not allocated stays so.
\<close>

theorem Video_read_unsupported:
  "(fst (Video_read inflate v) = Inl (UnsupportedEncoding e)) =
     (12 \<le> length (reader v) \<and> rect_encoding (reader v) = e \<and> e \<noteq> 0 \<and> e \<noteq> 6) \<and>
   (12 \<le> length (reader v) \<and> rect_encoding (reader v) \<noteq> 0 \<and> rect_encoding (reader v) \<noteq> 6 \<longrightarrow>
      Video_read inflate v =
        (Inl (UnsupportedEncoding (rect_encoding (reader v))), v\<lparr>reader := drop 12 (reader v)\<rparr>))"
proof (rule conjI)
  show "(fst (Video_read inflate v) = Inl (UnsupportedEncoding e)) =
     (12 \<le> length (reader v) \<and> rect_encoding (reader v) = e \<and> e \<noteq> 0 \<and> e \<noteq> 6)"
  proof
    assume "fst (Video_read inflate v) = Inl (UnsupportedEncoding e)"
    from Video_read_errors [OF this]
    show "12 \<le> length (reader v) \<and> rect_encoding (reader v) = e \<and> e \<noteq> 0 \<and> e \<noteq> 6"
      by (auto simp: store_error_def)
  next
    assume "12 \<le> length (reader v) \<and> rect_encoding (reader v) = e \<and> e \<noteq> 0 \<and> e \<noteq> 6"
    then show "fst (Video_read inflate v) = Inl (UnsupportedEncoding e)"
      by (simp add: Video_read_header read_body_unsupported)
  qed
next
  show "12 \<le> length (reader v) \<and> rect_encoding (reader v) \<noteq> 0 \<and> rect_encoding (reader v) \<noteq> 6 \<longrightarrow>
      Video_read inflate v =
        (Inl (UnsupportedEncoding (rect_encoding (reader v))), v\<lparr>reader := drop 12 (reader v)\<rparr>)"
    by (simp add: Video_read_header read_body_unsupported)
qed

text \<open>An instance: a header with the encoding code 1 on a video without a buffer.\<close>

theorem Video_read_unsupported_witness:
  "Video_read (\<lambda>z bs. (Some bs, z))
     \<lparr>reader = [0, 0, 0, 0, 0, 1, 0, 1, 0, 0, 0, 1, 9, 8, 7, 6, 55], writer = [], decompress = (),
        name = [], vwidth = 2, vheight = 2, mode = ''bgra'', data = None\<rparr> =
   (Inl (UnsupportedEncoding 1),
     \<lparr>reader = [9, 8, 7, 6, 55], writer = [], decompress = (),
        name = [], vwidth = 2, vheight = 2, mode = ''bgra'', data = None\<rparr>)"
  using Video_read_unsupported [of "\<lambda>z bs. (Some bs, z)"
      "\<lparr>reader = [0, 0, 0, 0, 0, 1, 0, 1, 0, 0, 0, 1, 9, 8, 7, 6, 55], writer = [], decompress = (),
        name = [], vwidth = 2, vheight = 2, mode = ''bgra'', data = None\<rparr>" 1]
  by (simp add: rect_encoding_def from_bytes_big_def)

text \<open>
  C8 as stated fails: \<^verbatim>\<open>read\<close> also raises with the encoding code 0, here for a raw
  rectangle of 2 by 2 pixels that does not fit a buffer of one pixel.
\<close>

theorem Video_read_raw_out_of_range:
  "fst (Video_read (\<lambda>z bs. (Some bs, z))
     \<lparr>reader = [0, 0, 0, 0, 0, 2, 0, 2, 0, 0, 0, 0] @ replicate 16 0, writer = [], decompress = (),
        name = [], vwidth = 1, vheight = 1, mode = ''rgba'', data = None\<rparr>) = Inl BroadcastError \<and>
   rect_encoding ([0, 0, 0, 0, 0, 2, 0, 2, 0, 0, 0, 0] @ replicate 16 0) = 0"
  by code_simp

section \<open>Reading updates\<close>

lemma from_bytes_big_single: "from_bytes_big [b] = unat b"
  by (simp add: from_bytes_big_def)

lemma repeat_s_errors:
  assumes "\<And>s e. fst (m s) = Inl e \<Longrightarrow> P e" "fst (repeat_s n m s) = Inl e"
  shows "P e"
  using assms(2)
proof (induction n arbitrary: s)
  case 0
  then show ?case by (simp add: return_s_def)
next
  case (Suc n)
  obtain r s' where ms: "m s = (r, s')" by (cases "m s")
  show ?case
  proof (cases r)
    case (Inl e')
    with ms Suc.prems have "e = e'" by (simp add: bind_s_def)
    then show ?thesis using assms(1) [of s e'] ms Inl by simp
  next
    case (Inr u)
    with ms Suc.prems have "fst (repeat_s n m s') = Inl e" by (simp add: bind_s_def)
    then show ?thesis by (rule Suc.IH)
  qed
qed

lemma on_video_fst: "fst (on_video m c) = fst (m (video c))"
  by (simp add: on_video_def split: prod.splits)

lemma Video_read_not_update_type:
  assumes "fst (Video_read inflate v) = Inl e"
  shows "e \<noteq> InvalidUpdateType t"
  using Video_read_errors [OF assms] by (auto simp: store_error_def)

lemma Client_read_cases:
  fixes c :: "'z Client" and inflate :: "'z inflate"
  defines "s \<equiv> reader (video c)"
  shows "s = [] \<Longrightarrow> Client_read inflate c = (Inl IncompleteReadError, with_stream c [])"
    and "s \<noteq> [] \<Longrightarrow> hd s \<noteq> 0 \<Longrightarrow>
      Client_read inflate c = (Inl (InvalidUpdateType (unat (hd s))), with_stream c (tl s))"
    and "s \<noteq> [] \<Longrightarrow> hd s = 0 \<Longrightarrow> length s < 4 \<Longrightarrow>
      Client_read inflate c = (Inl IncompleteReadError, with_stream c [])"
    and "hd s = 0 \<Longrightarrow> 4 \<le> length s \<Longrightarrow>
      Client_read inflate c =
        (case repeat_s (from_bytes_big (take 2 (drop 2 s))) (on_video (Video_read inflate))
                (with_stream c (drop 4 s)) of
           (Inl e, c') \<Rightarrow> (Inl e, c')
         | (Inr u, c') \<Rightarrow> (Inr VIDEO, c'))"
proof -
  have r: "on_video (on_reader (read_int n)) (c\<lparr>video := (video c)\<lparr>reader := t\<rparr>\<rparr>) =
      (if n \<le> length t
       then (Inr (from_bytes_big (take n t)), c\<lparr>video := (video c)\<lparr>reader := drop n t\<rparr>\<rparr>)
       else (Inl IncompleteReadError, c\<lparr>video := (video c)\<lparr>reader := []\<rparr>\<rparr>))" for n t
    by (simp add: on_video_def on_reader_def read_int_def readexactly_def bind_s_def return_s_def)
  have r': "on_video (on_reader (readexactly n)) (c\<lparr>video := (video c)\<lparr>reader := t\<rparr>\<rparr>) =
      (if n \<le> length t
       then (Inr (take n t), c\<lparr>video := (video c)\<lparr>reader := drop n t\<rparr>\<rparr>)
       else (Inl IncompleteReadError, c\<lparr>video := (video c)\<lparr>reader := []\<rparr>\<rparr>))" for n t
    by (simp add: on_video_def on_reader_def readexactly_def)
  have c: "c = c\<lparr>video := (video c)\<lparr>reader := s\<rparr>\<rparr>" by (simp add: s_def)
  have cr: "Client_read inflate c = Client_read inflate (c\<lparr>video := (video c)\<lparr>reader := s\<rparr>\<rparr>)"
    using c by simp
  show "s = [] \<Longrightarrow> Client_read inflate c = (Inl IncompleteReadError, with_stream c [])"
    unfolding cr unfolding Client_read_def
    by (simp add: bind_s_def r with_stream_def)
  show "s \<noteq> [] \<Longrightarrow> hd s \<noteq> 0 \<Longrightarrow>
      Client_read inflate c = (Inl (InvalidUpdateType (unat (hd s))), with_stream c (tl s))"
    unfolding cr unfolding Client_read_def
    by (cases s)
      (simp_all add: bind_s_def r with_stream_def UpdateType_of_def from_bytes_big_single unat_eq_0)
  show "s \<noteq> [] \<Longrightarrow> hd s = 0 \<Longrightarrow> length s < 4 \<Longrightarrow>
      Client_read inflate c = (Inl IncompleteReadError, with_stream c [])"
    unfolding cr unfolding Client_read_def
    by (cases s)
      (auto simp add: bind_s_def r r' with_stream_def UpdateType_of_def from_bytes_big_single)
  show "hd s = 0 \<Longrightarrow> 4 \<le> length s \<Longrightarrow>
      Client_read inflate c =
        (case repeat_s (from_bytes_big (take 2 (drop 2 s))) (on_video (Video_read inflate))
                (with_stream c (drop 4 s)) of
           (Inl e, c') \<Rightarrow> (Inl e, c')
         | (Inr u, c') \<Rightarrow> (Inr VIDEO, c'))"
    unfolding cr unfolding Client_read_def
    by (cases s)
      (auto simp add: bind_s_def r r' with_stream_def UpdateType_of_def from_bytes_big_single
        return_s_def split: prod.splits sum.splits)
qed

lemma Client_read_loop_not_update_type:
  assumes "fst (repeat_s n (on_video (Video_read inflate)) c) = Inl e"
  shows "e \<noteq> InvalidUpdateType t"
proof (rule repeat_s_errors [where P = "\<lambda>e. e \<noteq> InvalidUpdateType t", OF _ assms])
  fix s :: "'a Client" and e
  assume "fst (on_video (Video_read inflate) s) = Inl e"
  then have "fst (Video_read inflate (video s)) = Inl e" by (simp add: on_video_fst)
  then show "e \<noteq> InvalidUpdateType t" by (rule Video_read_not_update_type)
qed

text \<open>
  C9, as the code has it. \<^verbatim>\<open>Client.read\<close> raises the error for an invalid update
  type exactly when the type byte it reads is not 0, and it has then consumed that byte
  only. When the type byte is 0 and the padding byte and the count \<open>n\<close> follow, it
  performs \<open>n\<close> calls of \<^verbatim>\<open>Video.read\<close> in sequence, returns \<^verbatim>\<open>VIDEO\<close> when all
  of them return, and raises the exception of the first that raises.
\<close>

theorem Client_read_update_type:
  "(fst (Client_read inflate c) = Inl (InvalidUpdateType t)) =
     (reader (video c) \<noteq> [] \<and> unat (hd (reader (video c))) = t \<and> t \<noteq> 0) \<and>
   (reader (video c) \<noteq> [] \<and> hd (reader (video c)) \<noteq> 0 \<longrightarrow>
      Client_read inflate c =
        (Inl (InvalidUpdateType (unat (hd (reader (video c))))),
         with_stream c (tl (reader (video c))))) \<and>
   (4 \<le> length (reader (video c)) \<and> hd (reader (video c)) = 0 \<longrightarrow>
      Client_read inflate c =
        (case repeat_s (from_bytes_big (take 2 (drop 2 (reader (video c)))))
                (on_video (Video_read inflate)) (with_stream c (drop 4 (reader (video c)))) of
           (Inl e, c') \<Rightarrow> (Inl e, c')
         | (Inr u, c') \<Rightarrow> (Inr VIDEO, c')))"
proof (intro conjI)
  let ?s = "reader (video c)"
  show "(fst (Client_read inflate c) = Inl (InvalidUpdateType t)) =
      (?s \<noteq> [] \<and> unat (hd ?s) = t \<and> t \<noteq> 0)"
  proof (cases "?s = []")
    case True
    then show ?thesis by (simp add: Client_read_cases(1))
  next
    case ne: False
    show ?thesis
    proof (cases "hd ?s = 0")
      case False
      then show ?thesis using ne by (auto simp: Client_read_cases(2) unat_gt_0)
    next
      case zero: True
      show ?thesis
      proof (cases "length ?s < 4")
        case True
        then show ?thesis using ne zero by (auto simp: Client_read_cases(3))
      next
        case False
        then have len: "4 \<le> length ?s" by simp
        let ?loop = "repeat_s (from_bytes_big (take 2 (drop 2 ?s))) (on_video (Video_read inflate))
            (with_stream c (drop 4 ?s))"
        have "fst (Client_read inflate c) \<noteq> Inl (InvalidUpdateType t)"
        proof
          assume a: "fst (Client_read inflate c) = Inl (InvalidUpdateType t)"
          then have "fst ?loop = Inl (InvalidUpdateType t)"
            unfolding Client_read_cases(4) [OF zero len]
            by (cases ?loop) (auto split: sum.splits)
          then show False using Client_read_loop_not_update_type by blast
        qed
        then show ?thesis using zero by auto
      qed
    qed
  qed
next
  show "reader (video c) \<noteq> [] \<and> hd (reader (video c)) \<noteq> 0 \<longrightarrow>
      Client_read inflate c =
        (Inl (InvalidUpdateType (unat (hd (reader (video c))))),
         with_stream c (tl (reader (video c))))"
    by (simp add: Client_read_cases(2))
next
  show "4 \<le> length (reader (video c)) \<and> hd (reader (video c)) = 0 \<longrightarrow>
      Client_read inflate c =
        (case repeat_s (from_bytes_big (take 2 (drop 2 (reader (video c)))))
                (on_video (Video_read inflate)) (with_stream c (drop 4 (reader (video c)))) of
           (Inl e, c') \<Rightarrow> (Inl e, c')
         | (Inr u, c') \<Rightarrow> (Inr VIDEO, c'))"
    using Client_read_cases(4) [of c inflate] by blast
qed

text \<open>Two instances: the type byte 3, and the type byte 0 with no rectangle.\<close>

theorem Client_read_update_type_witness:
  "Client_read (\<lambda>z bs. (Some bs, z))
     \<lparr>video = \<lparr>reader = [3, 0, 0, 1], writer = [], decompress = (), name = [], vwidth = 1,
        vheight = 1, mode = ''rgba'', data = None\<rparr>\<rparr> =
   (Inl (InvalidUpdateType 3),
     \<lparr>video = \<lparr>reader = [0, 0, 1], writer = [], decompress = (), name = [], vwidth = 1,
        vheight = 1, mode = ''rgba'', data = None\<rparr>\<rparr>) \<and>
   Client_read (\<lambda>z bs. (Some bs, z))
     \<lparr>video = \<lparr>reader = [0, 0, 0, 0, 55], writer = [], decompress = (), name = [], vwidth = 1,
        vheight = 1, mode = ''rgba'', data = None\<rparr>\<rparr> =
   (Inr VIDEO,
     \<lparr>video = \<lparr>reader = [55], writer = [], decompress = (), name = [], vwidth = 1,
        vheight = 1, mode = ''rgba'', data = None\<rparr>\<rparr>)"
  using Client_read_update_type [of "\<lambda>z bs. (Some bs, z)"
      "\<lparr>video = \<lparr>reader = [3, 0, 0, 1], writer = [], decompress = (), name = [], vwidth = 1,
        vheight = 1, mode = ''rgba'', data = None\<rparr>\<rparr>" 3]
    Client_read_update_type [of "\<lambda>z bs. (Some bs, z)"
      "\<lparr>video = \<lparr>reader = [0, 0, 0, 0, 55], writer = [], decompress = (), name = [], vwidth = 1,
        vheight = 1, mode = ''rgba'', data = None\<rparr>\<rparr>" 3]
  by (simp add: with_stream_def from_bytes_big_def return_s_def)

text \<open>
  C9 as stated fails: with the type byte 0 \<^verbatim>\<open>Client.read\<close> raises when a rectangle
  has an encoding that is not supported.
\<close>

theorem Client_read_video_raises:
  "fst (Client_read (\<lambda>z bs. (Some bs, z))
     \<lparr>video = \<lparr>reader = [0, 0, 0, 1, 0, 0, 0, 0, 0, 1, 0, 1, 0, 0, 0, 1], writer = [],
        decompress = (), name = [], vwidth = 1, vheight = 1, mode = ''rgba'', data = None\<rparr>\<rparr>) =
   Inl (UnsupportedEncoding 1) \<and>
   hd [0, 0, 0, 1, 0, 0, 0, 0, 0, 1, 0, 1, 0, 0, 0, 1 :: byte] = 0"
  by code_simp

section \<open>Coverage of the buffer\<close>

lemma has_shape_cells:
  assumes "has_shape H W d"
  shows "length d = H" "i < H \<Longrightarrow> length (d ! i) = W" "i < H \<Longrightarrow> j < W \<Longrightarrow> length (d ! i ! j) = 4"
  using assms by (simp_all add: has_shape_def list_all_length)

lemma has_shapeI:
  assumes "length d = H" "\<And>i. i < H \<Longrightarrow> length (d ! i) = W"
    "\<And>i j. i < H \<Longrightarrow> j < W \<Longrightarrow> length (d ! i ! j) = 4"
  shows "has_shape H W d"
  using assms by (simp add: has_shape_def list_all_length)

lemma buffer0_shape:
  assumes "video_ok v"
  shows "has_shape (vheight v) (vwidth v) (buffer0 v)"
  using assms by (auto simp: video_ok_def buffer0_def np_zeros_def has_shape_def list_all_length
      split: option.splits)

lemma np_ndarray_cell:
  assumes "np_ndarray h w bs = Inr src" "a < h" "b < w"
  shows "length (src ! a ! b) = 4"
proof -
  from assms(1) have len: "h * w * 4 \<le> length bs"
    and src: "src = map (\<lambda>i. map (\<lambda>j. take 4 (drop ((i * w + j) * 4) bs)) [0..<w]) [0..<h]"
    by (auto simp: np_ndarray_def split: if_splits)
  have "a * w + b + 1 \<le> a * w + w" using assms(3) by simp
  also have "\<dots> = (a + 1) * w" by simp
  also have "\<dots> \<le> h * w" using assms(2) by (intro mult_le_mono1) simp
  finally have "(a * w + b) * 4 + 4 \<le> h * w * 4" by simp
  with len have "(a * w + b) * 4 + 4 \<le> length bs" by linarith
  then show ?thesis using assms(2,3) by (simp add: src)
qed

lemma assign_rect_cells:
  assumes "assign_rect H W py px h w src d = Inr d1" "has_shape H W d"
  shows "length d1 = H" "i < H \<Longrightarrow> length (d1 ! i) = W"
    "i < H \<Longrightarrow> j < W \<Longrightarrow>
       d1 ! i ! j = (if py \<le> i \<and> i < py + h \<and> px \<le> j \<and> j < px + w
                     then src ! (i - py) ! (j - px) else d ! i ! j)"
proof -
  define h' where "h' = min (py + h) H - min py H"
  define w' where "w' = min (px + w) W - min px W"
  from assms(1) have d1: "d1 = map (\<lambda>i.
                if py \<le> i \<and> i < py + h'
                then map (\<lambda>j. if px \<le> j \<and> j < px + w' then src ! (i - py) ! (j - px) else d ! i ! j)
                       [0..<length (d ! i)]
                else d ! i) [0..<length d]"
    and bc: "(h = h' \<or> h = 1) \<and> (w = w' \<or> w = 1)"
    by (auto simp: assign_rect_def Let_def h'_def w'_def split: if_splits)
  note sh = has_shape_cells [OF assms(2)]
  show "length d1 = H" by (simp add: d1 sh)
  show "length (d1 ! i) = W" if "i < H" using that by (simp add: d1 sh)
  assume ij: "i < H" "j < W"
  have r: "py \<le> i \<and> i < py + h' \<longleftrightarrow> py \<le> i \<and> i < py + h"
    using ij(1) unfolding h'_def by (auto simp: min_def split: if_splits)
  have c: "px \<le> j \<and> j < px + w' \<longleftrightarrow> px \<le> j \<and> j < px + w"
    using ij(2) unfolding w'_def by (auto simp: min_def split: if_splits)
  show "d1 ! i ! j = (if py \<le> i \<and> i < py + h \<and> px \<le> j \<and> j < px + w
                     then src ! (i - py) ! (j - px) else d ! i ! j)"
    using ij r c by (auto simp: d1 sh)
qed

lemma fill_channel_cells:
  assumes "fill_channel py px h w k c d1 = Inr d2" "length d1 = H" "\<forall>i<H. length (d1 ! i) = W"
  shows "length d2 = H" "i < H \<Longrightarrow> length (d2 ! i) = W"
    "i < H \<Longrightarrow> j < W \<Longrightarrow>
       d2 ! i ! j = (if py \<le> i \<and> i < py + h \<and> px \<le> j \<and> j < px + w
                     then (d1 ! i ! j)[k := c] else d1 ! i ! j)"
proof -
  from assms(1) have d2: "d2 = py_slice_update (int py) (int (py + h))
                  (py_slice_update (int px) (int (px + w)) (\<lambda>p. p[k := c])) d1"
    by (auto simp: fill_channel_def split: if_splits)
  show "length d2 = H" by (simp add: d2 assms(2))
  show "length (d2 ! i) = W" if "i < H"
    using that assms(2,3) by (simp add: d2 py_slice_update_nth del: of_nat_add)
  show "d2 ! i ! j = (if py \<le> i \<and> i < py + h \<and> px \<le> j \<and> j < px + w
                     then (d1 ! i ! j)[k := c] else d1 ! i ! j)" if "i < H" "j < W"
    using that assms(2,3) by (simp add: d2 py_slice_update_nth del: of_nat_add)
qed

lemma store_rect_success:
  assumes st: "store_rect px py w h bs v = (Inr u, v')"
    and k: "str_index (mode v) CHR ''a'' = Inr k" "k < 4"
    and ok: "video_ok v"
  shows "\<exists>d'. v' = v\<lparr>data := Some d'\<rparr> \<and> has_shape (vheight v) (vwidth v) d' \<and>
    (\<forall>i<vheight v. \<forall>j<vwidth v.
       d' ! i ! j ! k = (if in_region (px, py, w, h) i j then 255 else buffer0 v ! i ! j ! k))"
proof -
  let ?H = "vheight v" and ?W = "vwidth v"
  have d0: "(case data v of None \<Rightarrow> np_zeros ?H ?W | Some d \<Rightarrow> d) = buffer0 v"
    by (simp add: buffer0_def)
  from st obtain src d1 d2 where src: "np_ndarray h w bs = Inr src"
    and d1: "assign_rect ?H ?W py px h w src (buffer0 v) = Inr d1"
    and d2: "fill_channel py px h w k 255 d1 = Inr d2"
    and v': "v' = v\<lparr>data := Some d2\<rparr>"
    unfolding store_rect_def Let_def d0 k bind_e_def
    by (auto split: sum.splits)
  note sh0 = has_shape_cells [OF buffer0_shape [OF ok]]
  note c1 = assign_rect_cells [OF d1 buffer0_shape [OF ok]]
  have r1: "\<forall>i<?H. length (d1 ! i) = ?W" using c1(2) by blast
  note c2 = fill_channel_cells [OF d2 c1(1) r1]
  have len1: "length (d1 ! i ! j) = 4" if "i < ?H" "j < ?W" for i j
  proof (cases "py \<le> i \<and> i < py + h \<and> px \<le> j \<and> j < px + w")
    case True
    then have "i - py < h" "j - px < w" by linarith+
    from np_ndarray_cell [OF src this] have "length (src ! (i - py) ! (j - px)) = 4" .
    moreover have "d1 ! i ! j = src ! (i - py) ! (j - px)"
      using c1(3) [OF that] True by (simp only: if_True simp_thms)
    ultimately show ?thesis by simp
  next
    case False
    have "d1 ! i ! j = buffer0 v ! i ! j"
      using c1(3) [OF that] False by (simp only: if_False simp_thms)
    then show ?thesis using that by (simp add: sh0(3))
  qed
  have "has_shape ?H ?W d2"
  proof (rule has_shapeI)
    show "length d2 = ?H" by (rule c2(1))
    show "length (d2 ! i) = ?W" if "i < ?H" for i using that by (simp add: c2(2))
    show "length (d2 ! i ! j) = 4" if "i < ?H" "j < ?W" for i j
      using that by (simp add: c2(3) len1)
  qed
  moreover have "d2 ! i ! j ! k = (if in_region (px, py, w, h) i j then 255 else buffer0 v ! i ! j ! k)"
    if "i < ?H" "j < ?W" for i j
  proof (cases "py \<le> i \<and> i < py + h \<and> px \<le> j \<and> j < px + w")
    case True
    have "d2 ! i ! j = (d1 ! i ! j)[k := 255]"
      using c2(3) [OF that] True by (simp only: if_True simp_thms)
    moreover have "in_region (px, py, w, h) i j" using True by (simp add: in_region_def)
    ultimately show ?thesis using k(2) len1 [OF that] by simp
  next
    case False
    have "d2 ! i ! j = d1 ! i ! j"
      using c2(3) [OF that] False by (simp only: if_False simp_thms)
    moreover have "d1 ! i ! j = buffer0 v ! i ! j"
      using c1(3) [OF that] False by (simp only: if_False simp_thms)
    moreover have "\<not> in_region (px, py, w, h) i j" using False by (simp add: in_region_def)
    ultimately show ?thesis by simp
  qed
  ultimately show ?thesis using v' by blast
qed

lemma payload_frame:
  assumes "(if encoding = 0 then on_reader (readexactly n)
        else if encoding = 6 then
          bind_s (on_reader (read_int 4)) (\<lambda>len.
          bind_s (on_reader (readexactly len)) (\<lambda>bs. call_decompress inflate bs))
        else raise_s (UnsupportedEncoding encoding)) v0 = (Inr bs, v1)"
  shows "data v1 = data v0 \<and> vwidth v1 = vwidth v0 \<and> vheight v1 = vheight v0 \<and> mode v1 = mode v0"
  using assms
  by (auto simp: on_reader_def readexactly_def read_int_def bind_s_def return_s_def raise_s_def
      call_decompress_def split: if_splits prod.splits sum.splits option.splits)

lemma Video_read_success:
  assumes rd: "Video_read inflate v = (Inr u, v')"
    and k: "str_index (mode v) CHR ''a'' = Inr k" "k < 4"
    and ok: "video_ok v"
  shows "vwidth v' = vwidth v \<and> vheight v' = vheight v \<and> mode v' = mode v \<and>
    (\<exists>d'. data v' = Some d' \<and> has_shape (vheight v) (vwidth v) d' \<and>
      (\<forall>i<vheight v. \<forall>j<vwidth v.
         d' ! i ! j ! k =
           (if in_region (rect_header (reader v)) i j then 255 else buffer0 v ! i ! j ! k)))"
proof -
  have len: "12 \<le> length (reader v)"
  proof (rule ccontr)
    assume "\<not> 12 \<le> length (reader v)"
    then have "Video_read inflate v = (Inl IncompleteReadError, v\<lparr>reader := []\<rparr>)"
      by (intro Video_read_short) simp
    with rd show False by simp
  qed
  obtain px py w h where hd: "rect_header (reader v) = (px, py, w, h)"
    by (cases "rect_header (reader v)")
  let ?v0 = "v\<lparr>reader := drop 12 (reader v)\<rparr>"
  let ?enc = "rect_encoding (reader v)"
  let ?payload = "if ?enc = 0 then on_reader (readexactly (h * w * 4))
        else if ?enc = 6 then
          bind_s (on_reader (read_int 4)) (\<lambda>len.
          bind_s (on_reader (readexactly len)) (\<lambda>bs. call_decompress inflate bs))
        else raise_s (UnsupportedEncoding ?enc)"
  have body: "bind_s ?payload (\<lambda>bs. store_rect px py w h bs) ?v0 = (Inr u, v')"
    using rd unfolding Video_read_header [OF len] read_body_def hd by simp
  then obtain bs v1 where p: "?payload ?v0 = (Inr bs, v1)"
    and st: "store_rect px py w h bs v1 = (Inr u, v')"
    by (auto simp: bind_s_def split: prod.splits sum.splits)
  from payload_frame [OF p] have fr: "data v1 = data v" "vwidth v1 = vwidth v"
    "vheight v1 = vheight v" "mode v1 = mode v" by simp_all
  have ok1: "video_ok v1" using ok unfolding video_ok_def fr by simp
  have k1: "str_index (mode v1) CHR ''a'' = Inr k" using k by (simp add: fr)
  have b0: "buffer0 v1 = buffer0 v" by (simp add: buffer0_def fr split: option.splits)
  from store_rect_success [OF st k1 k(2) ok1] obtain d' where
    v': "v' = v1\<lparr>data := Some d'\<rparr>" and sh: "has_shape (vheight v) (vwidth v) d'"
    and al: "\<forall>i<vheight v. \<forall>j<vwidth v.
       d' ! i ! j ! k = (if in_region (px, py, w, h) i j then 255 else buffer0 v ! i ! j ! k)"
    unfolding fr b0 by blast
  show ?thesis using v' sh al by (simp add: fr hd)
qed

lemma covered_Cons: "covered (r # rs) i j \<longleftrightarrow> in_region r i j \<or> covered rs i j"
  by (simp add: covered_def)

lemma covered_Nil: "\<not> covered [] i j"
  by (simp add: covered_def)

lemma reads_alpha:
  assumes "successful_reads inflate n v = Some (rects, v')"
    and k: "str_index (mode v) CHR ''a'' = Inr k" "k < 4"
    and ok: "video_ok v"
  shows "vwidth v' = vwidth v \<and> vheight v' = vheight v \<and> mode v' = mode v \<and> length rects = n \<and>
    (n = 0 \<longrightarrow> v' = v) \<and>
    (0 < n \<longrightarrow> (\<exists>d'. data v' = Some d' \<and> has_shape (vheight v) (vwidth v) d' \<and>
      (\<forall>i<vheight v. \<forall>j<vwidth v.
         d' ! i ! j ! k = (if covered rects i j then 255 else buffer0 v ! i ! j ! k))))"
  using assms
proof (induction n arbitrary: v rects)
  case 0
  then show ?case by simp
next
  case (Suc n)
  from Suc.prems(1) obtain u v1 rs where rd: "Video_read inflate v = (Inr u, v1)"
    and rest: "successful_reads inflate n v1 = Some (rs, v')"
    and rects: "rects = rect_header (reader v) # rs"
    by (auto split: prod.splits sum.splits)
  from Video_read_success [OF rd Suc.prems(2,3,4)] obtain d1 where
    fr: "vwidth v1 = vwidth v" "vheight v1 = vheight v" "mode v1 = mode v"
    and d1: "data v1 = Some d1" "has_shape (vheight v) (vwidth v) d1"
    and a1: "\<forall>i<vheight v. \<forall>j<vwidth v.
         d1 ! i ! j ! k = (if in_region (rect_header (reader v)) i j then 255 else buffer0 v ! i ! j ! k)"
    by blast
  have ok1: "video_ok v1" using d1 by (simp add: video_ok_def fr)
  have k1: "str_index (mode v1) CHR ''a'' = Inr k" using Suc.prems(2) by (simp add: fr)
  have b1: "buffer0 v1 = d1" by (simp add: buffer0_def d1)
  note ih = Suc.IH [OF rest k1 Suc.prems(3) ok1, unfolded fr b1]
  show ?case
  proof (cases n)
    case 0
    with ih have "v' = v1" "rs = []" by simp_all
    then show ?thesis using 0 fr d1 a1 rects by (simp add: covered_Cons covered_Nil)
  next
    case (Suc n')
    with ih obtain d' where d': "data v' = Some d'" "has_shape (vheight v) (vwidth v) d'"
      and a': "\<forall>i<vheight v. \<forall>j<vwidth v.
         d' ! i ! j ! k = (if covered rs i j then 255 else d1 ! i ! j ! k)"
      by auto
    have "\<forall>i<vheight v. \<forall>j<vwidth v.
         d' ! i ! j ! k = (if covered rects i j then 255 else buffer0 v ! i ! j ! k)"
      using a' a1 by (simp add: rects covered_Cons)
    then show ?thesis using ih d' by (simp add: rects)
  qed
qed

text \<open>
  C5. Start without a buffer and let \<open>n\<close> calls of \<^verbatim>\<open>Video.read\<close> succeed, with at
  least one call or a buffer of at least one pixel. Then \<^verbatim>\<open>is_complete\<close> is true
  exactly when every pixel of the buffer lies in one of the decoded rectangles: the
  alpha byte of a pixel is 255 when it does, whatever the payload held there, and 0
  when it does not.
\<close>

theorem reads_complete:
  assumes "data v = None" "mode v \<in> set video_modes"
    and "successful_reads inflate n v = Some (rects, v')"
    and "rects \<noteq> [] \<or> (0 < vwidth v \<and> 0 < vheight v)"
  shows "is_complete v' = Inr (\<forall>i<vheight v. \<forall>j<vwidth v. covered rects i j) \<and>
    (\<exists>k<4. str_index (mode v) CHR ''a'' = Inr k \<and>
       (\<forall>d'. data v' = Some d' \<longrightarrow>
          (\<forall>i<vheight v. \<forall>j<vwidth v. d' ! i ! j ! k = (if covered rects i j then 255 else 0))))"
proof -
  from assms(2) obtain k where k: "str_index (mode v) CHR ''a'' = Inr k" "k < 4"
    by (auto simp: video_modes_def str_index_def)
  have ok: "video_ok v" using assms(1) by (simp add: video_ok_def)
  have z: "buffer0 v ! i ! j ! k = 0" if "i < vheight v" "j < vwidth v" for i j
    using that k(2) assms(1) by (auto simp: buffer0_def np_zeros_def nth_Cons' )
  note ra = reads_alpha [OF assms(3) k ok]
  show ?thesis
  proof (cases n)
    case 0
    with ra have v': "v' = v" and r: "rects = []" by simp_all
    with assms(4) have pos: "0 < vwidth v" "0 < vheight v" by simp_all
    have "\<not> (\<forall>i<vheight v. \<forall>j<vwidth v. covered rects i j)"
      using pos r covered_Nil by blast
    then show ?thesis using v' assms(1) k by (auto simp: is_complete_def)
  next
    case (Suc n')
    with ra obtain d' where fr: "mode v' = mode v"
      and d': "data v' = Some d'" "has_shape (vheight v) (vwidth v) d'"
      and a': "\<forall>i<vheight v. \<forall>j<vwidth v.
         d' ! i ! j ! k = (if covered rects i j then 255 else buffer0 v ! i ! j ! k)"
      by auto
    have al: "d' ! i ! j ! k = (if covered rects i j then 255 else 0)"
      if "i < vheight v" "j < vwidth v" for i j
      using a' that z by simp
    let ?m = "map (map (\<lambda>px. px ! k)) d'"
    have m: "is_array (vheight v) (vwidth v) ?m" by (rule has_shape_array [OF d'(2)])
    have "np_all ?m \<longleftrightarrow> (\<forall>i<vheight v. \<forall>j<vwidth v. ?m ! i ! j \<noteq> 0)"
      unfolding np_all_def list_all_length
      using m by (auto simp: is_array_length is_array_row simp del: length_map nth_map)
    also have "\<dots> \<longleftrightarrow> (\<forall>i<vheight v. \<forall>j<vwidth v. covered rects i j)"
      using al by (auto simp: has_shape_nth [OF d'(2)])
    finally have "is_complete v' = Inr (\<forall>i<vheight v. \<forall>j<vwidth v. covered rects i j)"
      using k by (simp add: is_complete_def d' fr alpha_channel_def channel_def bind_e_def)
    then show ?thesis using k d' al by auto
  qed
qed

text \<open>An instance: two raw rectangles of one pixel that cover a buffer of two pixels.\<close>

theorem reads_complete_witness:
  "successful_reads (\<lambda>z bs. (Some bs, z)) 2
     \<lparr>reader = [0, 0, 0, 0, 0, 1, 0, 1, 0, 0, 0, 0, 9, 8, 7, 6,
                 0, 1, 0, 0, 0, 1, 0, 1, 0, 0, 0, 0, 5, 4, 3, 2, 55],
        writer = [], decompress = (), name = [], vwidth = 2, vheight = 1, mode = ''bgra'',
        data = None\<rparr> =
   Some ([(0, 0, 1, 1), (1, 0, 1, 1)],
     \<lparr>reader = [55], writer = [], decompress = (), name = [], vwidth = 2, vheight = 1,
        mode = ''bgra'', data = Some [[[9, 8, 7, 255], [5, 4, 3, 255]]]\<rparr>) \<and>
   is_complete
     \<lparr>reader = [55], writer = [], decompress = (), name = [], vwidth = 2, vheight = 1,
        mode = ''bgra'', data = Some [[[9, 8, 7, 255], [5, 4, 3, 255 :: byte]]]\<rparr> = Inr True"
proof -
  let ?v = "\<lparr>reader = [0, 0, 0, 0, 0, 1, 0, 1, 0, 0, 0, 0, 9, 8, 7, 6,
                 0, 1, 0, 0, 0, 1, 0, 1, 0, 0, 0, 0, 5, 4, 3, 2, 55 :: byte],
        writer = [], decompress = (), name = [], vwidth = 2, vheight = 1, mode = ''bgra'',
        data = None\<rparr>"
  let ?v' = "\<lparr>reader = [55 :: byte], writer = [], decompress = (), name = [], vwidth = 2, vheight = 1,
        mode = ''bgra'', data = Some [[[9, 8, 7, 255], [5, 4, 3, 255 :: byte]]]\<rparr>"
  have run: "successful_reads (\<lambda>z bs. (Some bs, z)) 2 ?v = Some ([(0, 0, 1, 1), (1, 0, 1, 1)], ?v')"
    by code_simp
  have h: "data ?v = None" "mode ?v \<in> set video_modes"
    "[(0, 0, 1, 1), (1, 0, 1, 1)] \<noteq> [] \<or> (0 < vwidth ?v \<and> 0 < vheight ?v)"
    by (simp_all add: video_modes_def)
  from reads_complete [OF h(1,2) run h(3)]
  have "is_complete ?v' = Inr (\<forall>i<vheight ?v. \<forall>j<vwidth ?v. covered [(0, 0, 1, 1), (1, 0, 1, 1)] i j)"
    by blast
  also have "(\<forall>i<vheight ?v. \<forall>j<vwidth ?v. covered [(0, 0, 1, 1), (1, 0, 1, 1)] i j) = True"
    by (auto simp: covered_def in_region_def)
  finally show ?thesis using run by simp
qed

end
